theory Spec2Isabelle
  imports Main "HOL-Library.Sublist"
begin

section \<open>Python strings\<close>

text \<open>
  A Python \<^verbatim>\<open>str\<close> is modelled as a \<^typ>\<open>string\<close>: a list of characters, each
  read as one code point below 256. \<^verbatim>\<open>str.isspace\<close> holds, among these code points,
  of 9 to 13, 28 to 32, 133 and 160; \<^verbatim>\<open>strip\<close> and \<^verbatim>\<open>rstrip\<close> without argument
  remove exactly such characters from the ends of the whole string.
\<close>

definition isspace :: "char \<Rightarrow> bool" where
  "isspace c =
     (let n = (of_char c :: nat)
      in (9 \<le> n \<and> n \<le> 13) \<or> (28 \<le> n \<and> n \<le> 32) \<or> n = 133 \<or> n = 160)"

definition lstrip :: "string \<Rightarrow> string" where
  "lstrip s = dropWhile isspace s"

definition rstrip :: "string \<Rightarrow> string" where
  "rstrip s = rev (dropWhile isspace (rev s))"

definition strip :: "string \<Rightarrow> string" where
  "strip s = lstrip (rstrip s)"

text \<open>\<^verbatim>\<open>s.split("\n")\<close>: the pieces between line breaks; never the empty list.\<close>

fun split_nl :: "string \<Rightarrow> string list" where
  "split_nl [] = [[]]"
| "split_nl (c # cs) =
     (if c = CHR ''\<newline>'' then [] # split_nl cs
      else (case split_nl cs of [] \<Rightarrow> [[c]] | l # ls \<Rightarrow> (c # l) # ls))"

text \<open>\<^verbatim>\<open>"\n".join(lines)\<close>.\<close>

fun join_nl :: "string list \<Rightarrow> string" where
  "join_nl [] = []"
| "join_nl [l] = l"
| "join_nl (l # ls) = l @ ''\<newline>'' @ join_nl ls"

text \<open>
  \<^verbatim>\<open>s.replace(old, new)\<close>: every occurrence of \<open>old\<close>, found from left to right without
  overlap, is replaced; an empty \<open>old\<close> matches before every character and at the end.
\<close>

function replace :: "string \<Rightarrow> string \<Rightarrow> string \<Rightarrow> string" where
  "replace old new [] = (if old = [] then new else [])"
| "replace old new (c # cs) =
     (if old = [] then new @ c # replace old new cs
      else if prefix old (c # cs) then new @ replace old new (drop (length old) (c # cs))
      else c # replace old new cs)"
  by pat_completeness auto
termination
  by (relation "measure (\<lambda>(old, new, s). length s)") (auto simp: neq_Nil_conv)

text \<open>The decimal digits of \<^verbatim>\<open>f"{i}"\<close> for a non-negative \<open>i\<close>.\<close>

definition digit :: "nat \<Rightarrow> char" where
  "digit d = ''0123456789'' ! d"

function str_of_nat :: "nat \<Rightarrow> string" where
  "str_of_nat n = (if n < 10 then [digit n] else str_of_nat (n div 10) @ [digit (n mod 10)])"
  by pat_completeness auto
termination
  by (relation "measure id") auto

declare str_of_nat.simps [simp del]

section \<open>The CDATA pattern\<close>

text \<open>
  \<^verbatim>\<open>re.compile(r"<!\[CDATA\[(.*?)\]\]>", re.DOTALL)\<close>: the opening delimiter, any
  characters (line breaks included), as few as possible, and the closing delimiter.
  \<open>find_sub\<close> finds the first occurrence of a text and returns what is before and after it.
\<close>

definition cdata_open :: string where
  "cdata_open = ''<![CDATA[''"

definition cdata_close :: string where
  "cdata_close = '']]>''"

fun find_sub :: "string \<Rightarrow> string \<Rightarrow> (string \<times> string) option" where
  "find_sub needle [] = (if needle = [] then Some ([], []) else None)"
| "find_sub needle (c # cs) =
     (if prefix needle (c # cs) then Some ([], drop (length needle) (c # cs))
      else map_option (\<lambda>(before, after). (c # before, after)) (find_sub needle cs))"

text \<open>
  A match anchored at the start of the text: the matched text and the text after it.
  The lazy \<^verbatim>\<open>.*?\<close> stops at the first closing delimiter.
\<close>

definition cdata_match :: "string \<Rightarrow> (string \<times> string) option" where
  "cdata_match s =
     (if prefix cdata_open s then
        (case find_sub cdata_close (drop (length cdata_open) s) of
           None \<Rightarrow> None
         | Some (body, rest) \<Rightarrow> Some (cdata_open @ body @ cdata_close, rest))
      else None)"

text \<open>
  \<^verbatim>\<open>pattern.search\<close>: the start positions are tried from left to right; the result is
  the text skipped, the match and the text after the match.
\<close>

fun cdata_search :: "string \<Rightarrow> (string \<times> string \<times> string) option" where
  "cdata_search [] = None"
| "cdata_search (c # cs) =
     (case cdata_match (c # cs) of
        Some (m, rest) \<Rightarrow> Some ([], m, rest)
      | None \<Rightarrow> map_option (\<lambda>(pre, m, rest). (c # pre, m, rest)) (cdata_search cs))"

lemma cdata_match_length:
  "cdata_match s = Some (m, rest) \<Longrightarrow> length rest < length s"
proof -
  have fs: "find_sub n t = Some (b, a) \<Longrightarrow> length a \<le> length t" for n t b a
    by (induction t arbitrary: b) (auto split: if_splits)
  assume "cdata_match s = Some (m, rest)"
  then obtain body where p: "prefix cdata_open s"
    and f: "find_sub cdata_close (drop (length cdata_open) s) = Some (body, rest)"
    by (auto simp: cdata_match_def split: if_splits option.splits)
  from p have "length cdata_open \<le> length s" by (rule prefix_length_le)
  moreover have "0 < length cdata_open" by (simp add: cdata_open_def)
  moreover from fs [OF f] have "length rest \<le> length s - length cdata_open" by simp
  ultimately show ?thesis by arith
qed

lemma cdata_search_length:
  "cdata_search s = Some (pre, m, rest) \<Longrightarrow> length rest < length s"
proof (induction s arbitrary: pre)
  case Nil
  then show ?case by simp
next
  case (Cons c cs)
  show ?case
  proof (cases "cdata_match (c # cs)")
    case None
    with Cons.prems obtain pre' where "cdata_search cs = Some (pre', m, rest)"
      by auto
    from Cons.IH [OF this] show ?thesis by simp
  next
    case (Some r)
    with Cons.prems have "cdata_match (c # cs) = Some (m, rest)"
      by (cases r) auto
    then show ?thesis by (rule cdata_match_length)
  qed
qed

text \<open>
  \<^verbatim>\<open>list(pattern.finditer(s))\<close>, each match given by its text \<^verbatim>\<open>match.group(0)\<close>:
  the search is repeated from the end of the previous match.
\<close>

function cdata_finditer :: "string \<Rightarrow> string list" where
  "cdata_finditer s =
     (case cdata_search s of
        None \<Rightarrow> []
      | Some (pre, m, rest) \<Rightarrow> m # cdata_finditer rest)"
  by pat_completeness auto
termination
  by (relation "measure length") (auto dest: cdata_search_length)

declare cdata_finditer.simps [simp del]

section \<open>pretty\_print\_xml\<close>

text \<open>
  The libraries of Python are not part of the repository; the functions take them as a
  parameter. \<open>fromstring\<close> is \<^verbatim>\<open>ET.fromstring\<close>, \<open>Inl\<close> carrying its \<^verbatim>\<open>ParseError\<close>: the
  message of the parser and the position, which \<^verbatim>\<open>str(e)\<close> prints as
  \<^verbatim>\<open>message: line l, column c\<close>. \<open>toprettyxml encoding indent s\<close> is
  \<^verbatim>\<open>minidom.parseString(s).toprettyxml(indent=indent, encoding=encoding)\<close> decoded again,
  \<open>Inl\<close> carrying the text of any exception on the way. \<open>tostring\<close> is
  \<^verbatim>\<open>ET.tostring(element, encoding="unicode")\<close>. Of an element the code reads only its
  tag and its attributes. \<open>decode encoding bytes\<close> is the text that reading a file with
  these bytes in text mode with the given encoding gives, \<open>None\<close> when the bytes do not
  decode or the encoding is unknown; \<open>encode encoding text\<close> is the bytes that writing
  the text in text mode with the encoding leaves in the file.
\<close>

record element =
  tag :: string
  attrib :: "string \<Rightarrow> string option"

record parse_error =
  msg :: string
  line :: nat
  column :: nat

definition str_of_error :: "parse_error \<Rightarrow> string" where
  "str_of_error e = msg e @ '': line '' @ str_of_nat (line e) @ '', column '' @ str_of_nat (column e)"

record xml_lib =
  tostring :: "element \<Rightarrow> string"
  fromstring :: "string \<Rightarrow> parse_error + element"
  toprettyxml :: "string \<Rightarrow> string \<Rightarrow> string \<Rightarrow> string + string"
  decode :: "string \<Rightarrow> string \<Rightarrow> string option"
  encode :: "string \<Rightarrow> string \<Rightarrow> string"

datatype xml_source = Element element | Text string

definition placeholder :: "nat \<Rightarrow> string" where
  "placeholder i = ''__CDATA_PLACEHOLDER_'' @ str_of_nat i @ ''__''"

text \<open>
  The loop over \<^verbatim>\<open>enumerate(matches)\<close>: the section list grows by the pair of the
  placeholder and the matched text, and every occurrence of the matched text in the
  current working text is replaced.
\<close>

fun extract_loop ::
  "nat \<Rightarrow> string list \<Rightarrow> string \<Rightarrow> (string \<times> string) list \<Rightarrow> string \<times> (string \<times> string) list"
where
  "extract_loop i [] rough_string cdata_sections = (rough_string, cdata_sections)"
| "extract_loop i (m # ms) rough_string cdata_sections =
     extract_loop (Suc i) ms (replace m (placeholder i) rough_string)
       (cdata_sections @ [(placeholder i, m)])"

definition extract_cdata :: "string \<Rightarrow> string \<times> (string \<times> string) list" where
  "extract_cdata rough_string = extract_loop 0 (cdata_finditer rough_string) rough_string []"

text \<open>The loop that puts the sections back, in the order of the section list.\<close>

fun restore_cdata :: "(string \<times> string) list \<Rightarrow> string \<Rightarrow> string" where
  "restore_cdata [] pretty_xml = pretty_xml"
| "restore_cdata ((token, original) # cdata_sections) pretty_xml =
     restore_cdata cdata_sections (replace token original pretty_xml)"

definition remove_blank_lines :: "string \<Rightarrow> string" where
  "remove_blank_lines pretty_xml =
     join_nl (filter (\<lambda>line. strip line \<noteq> []) (split_nl pretty_xml))"

text \<open>
  The result is \<open>Inr\<close> the formatted text, or \<open>Inl\<close> the exception text, which the source
  logs as an error before it returns \<^verbatim>\<open>None\<close>.
\<close>

definition pretty_print_xml ::
  "xml_lib \<Rightarrow> xml_source \<Rightarrow> string \<Rightarrow> string \<Rightarrow> bool \<Rightarrow> string + string" where
  "pretty_print_xml lib element encoding indent preserve_cdata =
     (let rough_string = (case element of Element e \<Rightarrow> tostring lib e | Text s \<Rightarrow> s);
          (rough_string, cdata_sections) =
             (if preserve_cdata then extract_cdata rough_string else (rough_string, []))
      in case toprettyxml lib encoding indent rough_string of
           Inl e \<Rightarrow> Inl e
         | Inr pretty_xml \<Rightarrow>
             Inr (rstrip (restore_cdata cdata_sections (remove_blank_lines pretty_xml))
                  @ ''\<newline>''))"

section \<open>Files and the log\<close>

text \<open>
  The storage maps a path to the bytes of the file, a list of characters below 256 like
  a text; a path without bytes cannot be read, a locked path cannot be opened for
  writing. Reading in text mode decodes the bytes with the encoding that the call names,
  writing encodes the text. The logger is set to level INFO, so the debug calls of the
  source leave no trace and are left out. A log entry keeps the level and the values
  that the source puts into its message: the path, the text of a parser error, the list
  of missing attributes, a count.
\<close>

type_synonym path = string

datatype level = INFO | WARNING | ERROR

datatype exn = OS_error | Decode_error | Parse_error string

datatype event =
    Pretty_printing_error string
  | Skipping_empty_file path
  | Invalid_xml path string
  | Could_not_format path
  | Already_formatted path
  | Would_format path
  | Formatted_file path
  | Error_processing path exn
  | Backup_failed path exn
  | Root_not_addon path
  | Missing_attributes path "string list"
  | Validation_error path exn
  | No_files_found
  | Run_started bool nat
  | Skipping_invalid path
  | Skipping_no_backup path
  | Run_complete bool
  | Files_formatted bool nat
  | Files_with_validation_errors nat
  | Files_with_formatting_errors nat

record world =
  files :: "path \<Rightarrow> string option"
  locked :: "path \<Rightarrow> bool"
  logged :: "(level \<times> event) list"

definition emit :: "level \<Rightarrow> event \<Rightarrow> world \<Rightarrow> world" where
  "emit l e w = w\<lparr>logged := logged w @ [(l, e)]\<rparr>"

definition write_file :: "path \<Rightarrow> string \<Rightarrow> world \<Rightarrow> world" where
  "write_file p s w = w\<lparr>files := (files w)(p \<mapsto> s)\<rparr>"

section \<open>format\_xml\_file\<close>

definition content_changed :: "string \<Rightarrow> string \<Rightarrow> bool" where
  "content_changed original_content formatted_content =
     (strip formatted_content \<noteq> strip original_content)"

definition format_xml_file ::
  "xml_lib \<Rightarrow> path \<Rightarrow> bool \<Rightarrow> string \<Rightarrow> string \<Rightarrow> world \<Rightarrow> bool \<times> world" where
  "format_xml_file lib file_path dry_run indent encoding w =
     (case files w file_path of
        None \<Rightarrow> (False, emit ERROR (Error_processing file_path OS_error) w)
      | Some bytes \<Rightarrow>
     (case decode lib encoding bytes of
        None \<Rightarrow> (False, emit ERROR (Error_processing file_path Decode_error) w)
      | Some original_content \<Rightarrow>
          if strip original_content = [] then
            (False, emit INFO (Skipping_empty_file file_path) w)
          else
            (case fromstring lib original_content of
               Inl e \<Rightarrow> (False, emit ERROR (Invalid_xml file_path (str_of_error e)) w)
             | Inr root \<Rightarrow>
                 (case pretty_print_xml lib (Text original_content) encoding indent True of
                    Inl e \<Rightarrow>
                      (False, emit ERROR (Could_not_format file_path)
                                (emit ERROR (Pretty_printing_error e) w))
                  | Inr formatted_content \<Rightarrow>
                      if \<not> content_changed original_content formatted_content then
                        (False, emit INFO (Already_formatted file_path) w)
                      else if dry_run then
                        (True, emit INFO (Would_format file_path) w)
                      else if locked w file_path then
                        (False, emit ERROR (Error_processing file_path OS_error) w)
                      else
                        (True, emit INFO (Formatted_file file_path)
                                 (write_file file_path (encode lib encoding formatted_content)
                                    w))))))"

section \<open>validate\_xml\_structure, create\_backup and format\_directory\<close>

definition required_attrs :: "string list" where
  "required_attrs = [''id'', ''name'', ''version'', ''provider-name'']"

text \<open>\<^verbatim>\<open>file_path.name\<close>: the last component of the path.\<close>

definition path_name :: "path \<Rightarrow> string" where
  "path_name p = rev (takeWhile (\<lambda>c. c \<noteq> CHR ''/'') (rev p))"

text \<open>
  \<open>validate_xml_structure\<close> has no encoding argument: it reads the file as
  \<^verbatim>\<open>utf-8\<close>, whatever encoding the run formats with.
\<close>

definition validate_xml_structure :: "xml_lib \<Rightarrow> path \<Rightarrow> world \<Rightarrow> bool \<times> world" where
  "validate_xml_structure lib file_path w =
     (case files w file_path of
        None \<Rightarrow> (False, emit ERROR (Validation_error file_path OS_error) w)
      | Some bytes \<Rightarrow>
     (case decode lib ''utf-8'' bytes of
        None \<Rightarrow> (False, emit ERROR (Validation_error file_path Decode_error) w)
      | Some content \<Rightarrow>
          (case fromstring lib content of
             Inl e \<Rightarrow>
               (False, emit ERROR (Validation_error file_path (Parse_error (str_of_error e))) w)
           | Inr root \<Rightarrow>
               if path_name file_path = ''addon.xml'' then
                 (let w1 = (if tag root \<noteq> ''addon''
                            then emit WARNING (Root_not_addon file_path) w else w);
                      missing_attrs = filter (\<lambda>attr. attrib root attr = None) required_attrs
                  in if missing_attrs \<noteq> []
                     then (True, emit WARNING (Missing_attributes file_path missing_attrs) w1)
                     else (True, w1))
               else (True, w))))"

text \<open>
  \<^verbatim>\<open>file_path.with_suffix(file_path.suffix + ".bak")\<close> appends \<^verbatim>\<open>.bak\<close> to a path whose
  name is not empty. The backup copies the bytes; it decodes nothing.
\<close>

definition backup_path :: "path \<Rightarrow> path" where
  "backup_path file_path = file_path @ ''.bak''"

definition create_backup :: "path \<Rightarrow> world \<Rightarrow> path option \<times> world" where
  "create_backup file_path w =
     (case files w file_path of
        None \<Rightarrow> (None, emit ERROR (Backup_failed file_path OS_error) w)
      | Some bytes \<Rightarrow>
          if locked w (backup_path file_path) then
            (None, emit ERROR (Backup_failed file_path OS_error) w)
          else (Some (backup_path file_path), write_file (backup_path file_path) bytes w))"

record summary =
  formatted_count :: nat
  error_count :: nat
  validation_errors :: nat

text \<open>
  The body of the loop over \<^verbatim>\<open>xml_files\<close>; a \<^verbatim>\<open>continue\<close> is the early result.
\<close>

definition format_one ::
  "xml_lib \<Rightarrow> bool \<Rightarrow> bool \<Rightarrow> string \<Rightarrow> string \<Rightarrow> bool \<Rightarrow> path \<Rightarrow> summary \<times> world
     \<Rightarrow> summary \<times> world" where
  "format_one lib dry_run backup indent encoding validate file_path cw =
     (let c = fst cw; w = snd cw;
          v = (if validate then validate_xml_structure lib file_path w else (True, w));
          c1 = (if fst v then c else c\<lparr>validation_errors := validation_errors c + 1\<rparr>)
      in if \<not> fst v \<and> \<not> dry_run then
           (c1, emit WARNING (Skipping_invalid file_path) (snd v))
         else if backup \<and> \<not> dry_run \<and> fst (create_backup file_path (snd v)) = None then
           (c1, emit WARNING (Skipping_no_backup file_path) (snd (create_backup file_path (snd v))))
         else
           (let w2 = (if backup \<and> \<not> dry_run then snd (create_backup file_path (snd v))
                      else snd v);
                r = format_xml_file lib file_path dry_run indent encoding w2
            in if fst r then (c1\<lparr>formatted_count := formatted_count c1 + 1\<rparr>, snd r)
               else (c1\<lparr>error_count := error_count c1 + 1\<rparr>, snd r)))"

definition format_files ::
  "xml_lib \<Rightarrow> bool \<Rightarrow> bool \<Rightarrow> string \<Rightarrow> string \<Rightarrow> bool \<Rightarrow> path list \<Rightarrow> summary \<times> world
     \<Rightarrow> summary \<times> world" where
  "format_files lib dry_run backup indent encoding validate xml_files cw =
     fold (format_one lib dry_run backup indent encoding validate) xml_files cw"

text \<open>
  \<open>format_directory\<close> with the list that \<^verbatim>\<open>find_xml_files\<close> returned in the place of
  the directory and the exclude patterns: walking the directory is not modelled.
\<close>

definition format_directory ::
  "xml_lib \<Rightarrow> path list \<Rightarrow> bool \<Rightarrow> bool \<Rightarrow> string \<Rightarrow> string \<Rightarrow> bool \<Rightarrow> world \<Rightarrow> world" where
  "format_directory lib xml_files dry_run backup indent encoding validate w =
     (if xml_files = [] then emit INFO No_files_found w
      else
        (let w0 = emit INFO (Run_started dry_run (length xml_files)) w;
             (c, w1) = format_files lib dry_run backup indent encoding validate xml_files
                         (\<lparr>formatted_count = 0, error_count = 0, validation_errors = 0\<rparr>, w0);
             w2 = emit INFO (Files_formatted dry_run (formatted_count c))
                    (emit INFO (Run_complete dry_run) w1);
             w3 = (if validation_errors c > 0
                   then emit WARNING (Files_with_validation_errors (validation_errors c)) w2
                   else w2)
         in if error_count c > 0
            then emit WARNING (Files_with_formatting_errors (error_count c)) w3
            else w3))"

section \<open>Sample data\<close>

text \<open>
  The values that the libraries of Python 3.11 return at the texts of the examples
  below, with an indent of four spaces. At any other text the tables of the parsers say
  failure; no example reads them there. A text of code points below 128 without a
  carriage return is its own UTF-8 encoding, and a text of code points below 256 without
  a carriage return is its own Latin-1 encoding; the byte E9 before \<^verbatim>\<open><\<close> is no UTF-8.
\<close>

definition xml_declaration :: string where
  \<open>xml_declaration = ''<?xml version="1.0" encoding="UTF-8"?>''\<close>

definition latin1_manifest :: string where
  \<open>latin1_manifest = ''<addon id="x">'' @ [CHR 0xE9] @ ''</addon>''\<close>

definition latin1_formatted :: string where
  \<open>latin1_formatted =
     ''<?xml version="1.0" encoding="latin-1"?>\<newline><addon id="x">'' @ [CHR 0xE9]
     @ ''</addon>\<newline>''\<close>

definition sample_fromstring :: "string \<Rightarrow> parse_error + element" where
  \<open>sample_fromstring s =
     (if s = ''<a><b>x</b></a>'' then Inr \<lparr>tag = ''a'', attrib = Map.empty\<rparr>
      else if s = xml_declaration @ ''\<newline><a>\<newline>    <b>x</b>\<newline></a>''
        then Inr \<lparr>tag = ''a'', attrib = Map.empty\<rparr>
      else if s = ''<addon id="x"><b/></addon>''
        then Inr \<lparr>tag = ''addon'', attrib = [''id'' \<mapsto> ''x'']\<rparr>
      else if s = ''<a><![CDATA[x]]><b/><![CDATA[z]]></a>''
        then Inr \<lparr>tag = ''a'', attrib = Map.empty\<rparr>
      else if s = xml_declaration @ ''\<newline><a><![CDATA[x\<newline>\<newline>y]]></a>''
        then Inr \<lparr>tag = ''a'', attrib = Map.empty\<rparr>
      else if s = ''<a><![CDATA[x]]>x<![CDATA[z]]>CDATA_PLACEHOLDER_0__</a>''
        then Inr \<lparr>tag = ''a'', attrib = Map.empty\<rparr>
      else if s = ''<a><![CDATA[__CDATA_PLACEHOLDER_1__]]><![CDATA[z]]></a>''
        then Inr \<lparr>tag = ''a'', attrib = Map.empty\<rparr>
      else if s = ''<a><b>''
        then Inl \<lparr>msg = ''no element found'', line = 1, column = 6\<rparr>
      else if s = [] then Inl \<lparr>msg = ''no element found'', line = 1, column = 0\<rparr>
      else if s = latin1_manifest
        then Inr \<lparr>tag = ''addon'', attrib = [''id'' \<mapsto> ''x'']\<rparr>
      else Inl \<lparr>msg = ''syntax error'', line = 1, column = 0\<rparr>)\<close>

definition sample_toprettyxml :: "string \<Rightarrow> string \<Rightarrow> string \<Rightarrow> string + string" where
  \<open>sample_toprettyxml encoding indent s =
     (if s = ''<a><b>x</b></a>'' then
        Inr (xml_declaration @ ''\<newline><a>\<newline>    <b>x</b>\<newline></a>\<newline>'')
      else if s = xml_declaration @ ''\<newline><a>\<newline>    <b>x</b>\<newline></a>'' then
        Inr (xml_declaration @
          ''\<newline><a>\<newline>    \<newline>    \<newline>    <b>x</b>\<newline>    \<newline>\<newline></a>\<newline>'')
      else if s = ''<addon id="x"><b/></addon>'' then
        Inr (xml_declaration @ ''\<newline><addon id="x">\<newline>    <b/>\<newline></addon>\<newline>'')
      else if encoding = ''latin-1'' \<and> s = latin1_manifest then Inr latin1_formatted
      else if s = ''<a>__CDATA_PLACEHOLDER_0__<b/>__CDATA_PLACEHOLDER_1__</a>'' then
        Inr (xml_declaration @
          ''\<newline><a>\<newline>    __CDATA_PLACEHOLDER_0__\<newline>    <b/>\<newline>    __CDATA_PLACEHOLDER_1__\<newline></a>\<newline>'')
      else if s = xml_declaration @ ''\<newline><a>__CDATA_PLACEHOLDER_0__</a>'' then
        Inr (xml_declaration @ ''\<newline><a>__CDATA_PLACEHOLDER_0__</a>\<newline>'')
      else if s = xml_declaration @ ''\<newline><a>__CDATA_PLACEHOLDER_0__</a>\<newline>'' then
        Inr (xml_declaration @ ''\<newline><a>__CDATA_PLACEHOLDER_0__</a>\<newline>'')
      else if s = ''<a>__CDATA_PLACEHOLDER_0__</a>'' then
        Inr (xml_declaration @ ''\<newline><a>__CDATA_PLACEHOLDER_0__</a>\<newline>'')
      else if s = ''<a>__CDATA_PLACEHOLDER_0__x__CDATA_PLACEHOLDER_1__CDATA_PLACEHOLDER_0__</a>''
        then Inr (xml_declaration @
          ''\<newline><a>__CDATA_PLACEHOLDER_0__x__CDATA_PLACEHOLDER_1__CDATA_PLACEHOLDER_0__</a>\<newline>'')
      else if s = ''<a>__CDATA_PLACEHOLDER_0____CDATA_PLACEHOLDER_1__</a>'' then
        Inr (xml_declaration @
          ''\<newline><a>__CDATA_PLACEHOLDER_0____CDATA_PLACEHOLDER_1__</a>\<newline>'')
      else if s = xml_declaration @
          ''\<newline><a>__CDATA_PLACEHOLDER_0__]]>__CDATA_PLACEHOLDER_1__</a>\<newline>'' then
        Inl ''not well-formed (invalid token): line 2, column 28''
      else Inl ''syntax error: line 1, column 0'')\<close>

definition sample_decode :: "string \<Rightarrow> string \<Rightarrow> string option" where
  "sample_decode encoding bytes =
     (if encoding = ''UTF-8'' \<or> encoding = ''utf-8'' then
        (if list_all (\<lambda>c. (of_char c :: nat) < 128 \<and> c \<noteq> CHR 0x0D) bytes
         then Some bytes else None)
      else if encoding = ''latin-1'' then
        (if list_all (\<lambda>c. c \<noteq> CHR 0x0D) bytes then Some bytes else None)
      else None)"

definition sample_lib :: xml_lib where
  "sample_lib = \<lparr>tostring = (\<lambda>e. []), fromstring = sample_fromstring,
                  toprettyxml = sample_toprettyxml, decode = sample_decode,
                  encode = (\<lambda>encoding text. text)\<rparr>"

definition sample_world :: "path \<Rightarrow> string \<Rightarrow> world" where
  "sample_world file_path content =
     \<lparr>files = [file_path \<mapsto> content], locked = (\<lambda>p. False), logged = []\<rparr>"

definition sample_batch :: world where
  "sample_batch =
     \<lparr>files = [''a.xml'' \<mapsto> ''<a><b>'', ''b.xml'' \<mapsto> ''<a><b>x</b></a>''],
      locked = (\<lambda>p. False), logged = []\<rparr>"

section \<open>Whitespace at the ends of a text\<close>

lemma rstrip_Nil: "rstrip s = [] \<longleftrightarrow> (\<forall>c \<in> set s. isspace c)"
  by (simp add: rstrip_def dropWhile_eq_Nil_conv)

lemma rstrip_last: "rstrip s \<noteq> [] \<Longrightarrow> \<not> isspace (last (rstrip s))"
  unfolding rstrip_def using hd_dropWhile [of isspace "rev s"] by (simp add: last_rev)

lemma strip_blank: "strip s = [] \<longleftrightarrow> (\<forall>c \<in> set s. isspace c)"
proof
  assume "strip s = []"
  then have all: "\<forall>c \<in> set (rstrip s). isspace c"
    by (simp add: strip_def lstrip_def dropWhile_eq_Nil_conv)
  have "rstrip s = []"
  proof (rule ccontr)
    assume ne: "rstrip s \<noteq> []"
    then have "last (rstrip s) \<in> set (rstrip s)" by simp
    with all rstrip_last [OF ne] show False by blast
  qed
  then show "\<forall>c \<in> set s. isspace c" by (simp add: rstrip_Nil)
next
  assume "\<forall>c \<in> set s. isspace c"
  then have "rstrip s = []" by (simp add: rstrip_Nil)
  then show "strip s = []" by (simp add: strip_def lstrip_def)
qed

lemma dropWhile_all: "\<forall>x \<in> set xs. P x \<Longrightarrow> dropWhile P (xs @ ys) = dropWhile P ys"
  by (induction xs) auto

lemma strip_core:
  assumes l: "\<forall>ch \<in> set l. isspace ch" and r: "\<forall>ch \<in> set r. isspace ch"
    and c: "c = [] \<or> (\<not> isspace (hd c) \<and> \<not> isspace (last c))"
  shows "strip (l @ c @ r) = c"
proof (cases "c = []")
  case True
  with l r have "\<forall>ch \<in> set (l @ c @ r). isspace ch" by auto
  then have "strip (l @ c @ r) = []" by (simp only: strip_blank)
  with True show ?thesis by simp
next
  case False
  with c have h: "\<not> isspace (hd c)" and t: "\<not> isspace (last c)" by auto
  from False t have "dropWhile isspace (rev c @ rev l) = rev c @ rev l"
    by (cases "rev c") (auto simp: last_rev [symmetric] hd_rev)
  with r have "dropWhile isspace (rev r @ rev c @ rev l) = rev c @ rev l"
    by (simp add: dropWhile_all)
  then have "rstrip (l @ c @ r) = l @ c" by (simp add: rstrip_def)
  moreover from False h l have "dropWhile isspace (l @ c) = c"
    by (cases c) (auto simp: dropWhile_all)
  ultimately show ?thesis by (simp add: strip_def lstrip_def)
qed

section \<open>Skipped files and dry runs\<close>

lemma files_emit: "files (emit l e w) = files w"
  by (simp add: emit_def)

text \<open>
  C9. A file whose content is empty or only whitespace is skipped: the result is False
  and the storage is as before, whatever the library and the other arguments are; the
  log gains the one line that says so.
\<close>

theorem empty_file_skipped:
  assumes "files w file_path = Some bytes"
    and "decode lib encoding bytes = Some content"
    and "\<forall>c \<in> set content. isspace c"
  shows "format_xml_file lib file_path dry_run indent encoding w =
           (False, emit INFO (Skipping_empty_file file_path) w)
         \<and> files (snd (format_xml_file lib file_path dry_run indent encoding w)) = files w"
  using assms by (simp add: format_xml_file_def strip_blank emit_def)

theorem empty_file_skipped_witness:
  "format_xml_file sample_lib ''addon.xml'' False ''    '' ''UTF-8''
       (sample_world ''addon.xml'' '' \<newline>'') =
     (False, emit INFO (Skipping_empty_file ''addon.xml'')
               (sample_world ''addon.xml'' '' \<newline>''))
   \<and> files (snd (format_xml_file sample_lib ''addon.xml'' False ''    '' ''UTF-8''
                    (sample_world ''addon.xml'' '' \<newline>'')))
      = files (sample_world ''addon.xml'' '' \<newline>'')"
  using empty_file_skipped [of "sample_world ''addon.xml'' '' \<newline>''" "''addon.xml''"
      "'' \<newline>''" sample_lib "''UTF-8''" "'' \<newline>''" False "''    ''"]
  by (simp add: sample_world_def sample_lib_def sample_decode_def isspace_def emit_def)

lemma sample_pretty_plain:
  "pretty_print_xml sample_lib (Text ''<a><b>x</b></a>'') ''UTF-8'' ''    '' True =
     Inr (xml_declaration @ ''\<newline><a>\<newline>    <b>x</b>\<newline></a>\<newline>'')"
  by (simp add: pretty_print_xml_def sample_lib_def sample_toprettyxml_def extract_cdata_def
      cdata_finditer.simps cdata_match_def cdata_open_def remove_blank_lines_def xml_declaration_def strip_def
      lstrip_def rstrip_def isspace_def)

lemma sample_plain_changed:
  "content_changed ''<a><b>x</b></a>''
     (xml_declaration @ ''\<newline><a>\<newline>    <b>x</b>\<newline></a>\<newline>'')"
  by (simp add: content_changed_def xml_declaration_def strip_def lstrip_def rstrip_def isspace_def)




section \<open>The loop over the files\<close>

lemma validate_store:
  "files (snd (validate_xml_structure lib p w)) = files w
   \<and> locked (snd (validate_xml_structure lib p w)) = locked w"
  by (auto simp: validate_xml_structure_def emit_def Let_def split: option.splits sum.splits)

lemma format_one_unfold:
  assumes "bk = (backup \<and> \<not> dry_run)"
  shows "format_one lib dry_run backup indent encoding False p (c, w) =
     (if bk \<and> fst (create_backup p w) = None
      then (c, emit WARNING (Skipping_no_backup p) (snd (create_backup p w)))
      else (let r = format_xml_file lib p dry_run indent encoding
                      (if bk then snd (create_backup p w) else w)
            in if fst r then (c\<lparr>formatted_count := formatted_count c + 1\<rparr>, snd r)
               else (c\<lparr>error_count := error_count c + 1\<rparr>, snd r)))"
  by (simp add: format_one_def Let_def assms)

lemma str_of_error_not_Nil: "str_of_error e \<noteq> []"
  by (simp add: str_of_error_def)

section \<open>Malformed files\<close>

text \<open>
  C4, amended. When the parser rejects a content that is not blank, \<open>format_xml_file\<close>
  returns False, leaves the storage as it was and logs one error that carries the path
  and the parser's reason, a text that is never empty. The loop of \<open>format_directory\<close>
  goes on with the files that follow, from the state given here: the file counts as one
  validation error (when validation reads it and rejects it too, in a real run) or as
  one formatting error, and the storage differs at most by the backup copy of the file,
  made in a real run with backups when validation is off or accepts what it reads.
\<close>

theorem malformed_file_untouched:
  assumes "files w file_path = Some bytes"
    and "decode lib encoding bytes = Some content"
    and "strip content \<noteq> []"
    and "fromstring lib content = Inl e"
  shows "format_xml_file lib file_path dry_run indent encoding w
           = (False, emit ERROR (Invalid_xml file_path (str_of_error e)) w)
       \<and> str_of_error e \<noteq> []
       \<and> files (snd (format_xml_file lib file_path dry_run indent encoding w)) = files w
       \<and> format_files lib dry_run backup indent encoding validate (file_path # xml_files) (c, w)
           = format_files lib dry_run backup indent encoding validate xml_files
               (let v = (if validate then validate_xml_structure lib file_path w else (True, w));
                    c1 = (if fst v then c else c\<lparr>validation_errors := validation_errors c + 1\<rparr>)
                in if \<not> fst v \<and> \<not> dry_run then
                     (c1, emit WARNING (Skipping_invalid file_path) (snd v))
                   else if backup \<and> \<not> dry_run \<and> locked w (backup_path file_path) then
                     (c1, emit WARNING (Skipping_no_backup file_path)
                            (emit ERROR (Backup_failed file_path OS_error) (snd v)))
                   else
                     (c1\<lparr>error_count := error_count c1 + 1\<rparr>,
                      emit ERROR (Invalid_xml file_path (str_of_error e))
                        (if backup \<and> \<not> dry_run
                         then write_file (backup_path file_path) bytes (snd v) else snd v)))
       \<and> files (snd (format_one lib dry_run backup indent encoding validate file_path (c, w)))
           = (if backup \<and> \<not> dry_run \<and> \<not> locked w (backup_path file_path)
                 \<and> (\<not> validate \<or> fst (validate_xml_structure lib file_path w))
              then (files w)(backup_path file_path \<mapsto> bytes) else files w)"
proof -
  define v where "v = (if validate then validate_xml_structure lib file_path w else (True, w))"
  define c1 where "c1 = (if fst v then c else c\<lparr>validation_errors := validation_errors c + 1\<rparr>)"
  have vs: "files (snd v) = files w" "locked (snd v) = locked w"
    by (simp_all add: v_def validate_store)
  have f: "format_xml_file lib file_path dr indent encoding w'
           = (False, emit ERROR (Invalid_xml file_path (str_of_error e)) w')"
    if "files w' file_path = Some bytes" for w' dr
    using assms(2,3,4) that by (simp add: format_xml_file_def)
  have b: "create_backup file_path (snd v)
           = (if locked w (backup_path file_path)
              then (None, emit ERROR (Backup_failed file_path OS_error) (snd v))
              else (Some (backup_path file_path), write_file (backup_path file_path) bytes (snd v)))"
    using assms(1) vs by (simp add: create_backup_def)
  have fv: "format_xml_file lib file_path dr indent encoding (snd v)
           = (False, emit ERROR (Invalid_xml file_path (str_of_error e)) (snd v))" for dr
    by (rule f) (simp add: vs assms(1))
  have fb: "format_xml_file lib file_path dr indent encoding
              (write_file (backup_path file_path) bytes (snd v))
           = (False, emit ERROR (Invalid_xml file_path (str_of_error e))
                (write_file (backup_path file_path) bytes (snd v)))" for dr
    by (rule f) (simp add: write_file_def vs assms(1))
  have one: "format_one lib dry_run backup indent encoding validate file_path (c, w)
      = (if \<not> fst v \<and> \<not> dry_run then
           (c1, emit WARNING (Skipping_invalid file_path) (snd v))
         else if backup \<and> \<not> dry_run \<and> locked w (backup_path file_path) then
           (c1, emit WARNING (Skipping_no_backup file_path)
                  (emit ERROR (Backup_failed file_path OS_error) (snd v)))
         else
           (c1\<lparr>error_count := error_count c1 + 1\<rparr>,
            emit ERROR (Invalid_xml file_path (str_of_error e))
              (if backup \<and> \<not> dry_run
               then write_file (backup_path file_path) bytes (snd v) else snd v)))"
    unfolding format_one_def Let_def fst_conv snd_conv v_def [symmetric] c1_def [symmetric]
    by (simp add: b fv fb)
  have st: "files (snd (format_one lib dry_run backup indent encoding validate file_path (c, w)))
           = (if backup \<and> \<not> dry_run \<and> \<not> locked w (backup_path file_path)
                 \<and> (\<not> validate \<or> fst (validate_xml_structure lib file_path w))
              then (files w)(backup_path file_path \<mapsto> bytes) else files w)"
    unfolding one by (simp add: files_emit vs write_file_def) (simp add: v_def)
  have a: "format_xml_file lib file_path dry_run indent encoding w
           = (False, emit ERROR (Invalid_xml file_path (str_of_error e)) w)"
    by (rule f [OF assms(1)])
  have loop: "format_files lib dry_run backup indent encoding validate (file_path # xml_files) (c, w)
           = format_files lib dry_run backup indent encoding validate xml_files
               (format_one lib dry_run backup indent encoding validate file_path (c, w))"
    by (simp add: format_files_def)
  show ?thesis
    unfolding loop one Let_def v_def [symmetric] c1_def [symmetric]
    using a st [unfolded one] by (simp add: str_of_error_not_Nil files_emit)
qed
lemma sample_error_text:
  "str_of_error \<lparr>msg = ''no element found'', line = 1, column = 6\<rparr>
     = ''no element found: line 1, column 6''"
  by (simp add: str_of_error_def str_of_nat.simps digit_def)

theorem malformed_file_untouched_witness:
  "format_xml_file sample_lib ''a.xml'' False ''    '' ''UTF-8'' sample_batch
     = (False, emit ERROR (Invalid_xml ''a.xml'' ''no element found: line 1, column 6'')
          sample_batch)
   \<and> fst (format_files sample_lib False False ''    '' ''UTF-8'' False [''a.xml'', ''b.xml'']
        (\<lparr>formatted_count = 0, error_count = 0, validation_errors = 0\<rparr>, sample_batch))
     = \<lparr>formatted_count = 1, error_count = 1, validation_errors = 0\<rparr>
   \<and> files (snd (format_files sample_lib False False ''    '' ''UTF-8'' False [''a.xml'', ''b.xml'']
        (\<lparr>formatted_count = 0, error_count = 0, validation_errors = 0\<rparr>, sample_batch)))
     = [''a.xml'' \<mapsto> ''<a><b>'',
        ''b.xml'' \<mapsto> xml_declaration @ ''\<newline><a>\<newline>    <b>x</b>\<newline></a>\<newline>'']"
proof -
  let ?c = "\<lparr>formatted_count = 0, error_count = 0, validation_errors = 0\<rparr>"
  let ?e = "\<lparr>msg = ''no element found'', line = 1, column = 6\<rparr>"
  let ?f = "xml_declaration @ ''\<newline><a>\<newline>    <b>x</b>\<newline></a>\<newline>''"
  let ?w1 = "emit ERROR (Invalid_xml ''a.xml'' ''no element found: line 1, column 6'') sample_batch"
  have h: "files sample_batch ''a.xml'' = Some ''<a><b>''"
    "decode sample_lib ''UTF-8'' ''<a><b>'' = Some ''<a><b>''"
    "strip ''<a><b>'' \<noteq> []"
    "fromstring sample_lib ''<a><b>'' = Inl ?e"
    by (simp_all add: sample_batch_def sample_lib_def sample_fromstring_def sample_decode_def
        strip_blank isspace_def xml_declaration_def)
  have b: "files ?w1 ''b.xml'' = Some ''<a><b>x</b></a>''"
    "decode sample_lib ''UTF-8'' ''<a><b>x</b></a>'' = Some ''<a><b>x</b></a>''"
    "strip ''<a><b>x</b></a>'' \<noteq> []"
    "fromstring sample_lib ''<a><b>x</b></a>'' = Inr \<lparr>tag = ''a'', attrib = Map.empty\<rparr>"
    "\<not> locked ?w1 ''b.xml''"
    "encode sample_lib ''UTF-8'' ?f = ?f"
    by (simp_all add: sample_batch_def sample_lib_def sample_fromstring_def sample_decode_def
        strip_blank isspace_def emit_def)
  have fx: "format_xml_file sample_lib ''b.xml'' False ''    '' ''UTF-8'' ?w1
      = (True, emit INFO (Formatted_file ''b.xml'') (write_file ''b.xml'' ?f ?w1))"
    using b sample_pretty_plain sample_plain_changed by (simp add: format_xml_file_def)
  have f1: "format_files sample_lib False False ''    '' ''UTF-8'' False [''b.xml'']
        (\<lparr>formatted_count = 0, error_count = Suc 0, validation_errors = 0\<rparr>, ?w1)
      = (\<lparr>formatted_count = Suc 0, error_count = Suc 0, validation_errors = 0\<rparr>,
         emit INFO (Formatted_file ''b.xml'') (write_file ''b.xml'' ?f ?w1))"
    by (simp add: format_files_def format_one_unfold [OF refl] fx)
  have fl: "files (emit INFO (Formatted_file ''b.xml'') (write_file ''b.xml'' ?f ?w1))
      = [''a.xml'' \<mapsto> ''<a><b>'', ''b.xml'' \<mapsto> ?f]"
    by (simp add: emit_def write_file_def sample_batch_def)
  from malformed_file_untouched [OF h, of False "''    ''" False False "[''b.xml'']" ?c,
      unfolded sample_error_text]
  have "format_xml_file sample_lib ''a.xml'' False ''    '' ''UTF-8'' sample_batch
        = (False, ?w1)"
    and "format_files sample_lib False False ''    '' ''UTF-8'' False [''a.xml'', ''b.xml'']
          (?c, sample_batch)
        = format_files sample_lib False False ''    '' ''UTF-8'' False [''b.xml'']
          (\<lparr>formatted_count = 0, error_count = Suc 0, validation_errors = 0\<rparr>, ?w1)"
    by simp_all
  then show ?thesis by (simp add: f1 fl)
qed

text \<open>
  The empty content is rejected by the parser, yet \<open>format_xml_file\<close> reports no parse
  failure for it: the file is skipped as empty, with an INFO entry.
\<close>

theorem blank_file_no_parse_failure:
  "fromstring sample_lib [] = Inl \<lparr>msg = ''no element found'', line = 1, column = 0\<rparr>
   \<and> format_xml_file sample_lib ''a.xml'' False ''    '' ''UTF-8'' (sample_world ''a.xml'' [])
     = (False, emit INFO (Skipping_empty_file ''a.xml'') (sample_world ''a.xml'' []))"
  by (simp add: sample_lib_def sample_fromstring_def sample_decode_def format_xml_file_def
      sample_world_def strip_blank xml_declaration_def)

section \<open>Validation of the manifest\<close>

text \<open>
  What validation does with a manifest that it can read: for a file named addon.xml
  whose bytes decode as UTF-8 to a text that parses and lacks some required attribute, it
  returns True, changes nothing but the log, and logs one warning that lists exactly the
  missing attributes, in the order of the required list (after the warning about the
  root tag, when that applies).
\<close>

lemma manifest_missing_attributes:
  assumes "files w file_path = Some bytes"
    and "decode lib ''utf-8'' bytes = Some content"
    and "fromstring lib content = Inr root"
    and "path_name file_path = ''addon.xml''"
    and "missing = filter (\<lambda>attr. attrib root attr = None) required_attrs"
    and "missing \<noteq> []"
  shows "validate_xml_structure lib file_path w
           = (True, w\<lparr>logged := logged w
                @ (if tag root \<noteq> ''addon'' then [(WARNING, Root_not_addon file_path)] else [])
                @ [(WARNING, Missing_attributes file_path missing)]\<rparr>)
       \<and> set missing = {attr \<in> set required_attrs. attr \<notin> dom (attrib root)}"
proof -
  have "set missing = {attr \<in> set required_attrs. attr \<notin> dom (attrib root)}"
    using assms(5) by (auto simp: dom_def)
  then show ?thesis
    using assms by (simp add: validate_xml_structure_def emit_def Let_def)
qed

text \<open>
  C8. The manifest \<open>latin1_manifest\<close>, which holds the byte E9, in a run with the
  encoding latin-1: the run reads a text that parses and lacks three required
  attributes, and without validation the file is formatted. Validation reads the bytes
  as UTF-8, fails, returns False, and the loop skips the file.
\<close>

theorem manifest_validation_encoding:
  "decode sample_lib ''latin-1'' latin1_manifest = Some latin1_manifest
   \<and> fromstring sample_lib latin1_manifest
     = Inr \<lparr>tag = ''addon'', attrib = [''id'' \<mapsto> ''x'']\<rparr>
   \<and> validate_xml_structure sample_lib ''plugin/addon.xml''
        (sample_world ''plugin/addon.xml'' latin1_manifest)
     = (False, emit ERROR (Validation_error ''plugin/addon.xml'' Decode_error)
         (sample_world ''plugin/addon.xml'' latin1_manifest))
   \<and> format_one sample_lib False False ''    '' ''latin-1'' True ''plugin/addon.xml''
        (\<lparr>formatted_count = 0, error_count = 0, validation_errors = 0\<rparr>,
         sample_world ''plugin/addon.xml'' latin1_manifest)
     = (\<lparr>formatted_count = 0, error_count = 0, validation_errors = 1\<rparr>,
        emit WARNING (Skipping_invalid ''plugin/addon.xml'')
          (emit ERROR (Validation_error ''plugin/addon.xml'' Decode_error)
            (sample_world ''plugin/addon.xml'' latin1_manifest)))
   \<and> fst (format_one sample_lib False False ''    '' ''latin-1'' False ''plugin/addon.xml''
        (\<lparr>formatted_count = 0, error_count = 0, validation_errors = 0\<rparr>,
         sample_world ''plugin/addon.xml'' latin1_manifest))
     = \<lparr>formatted_count = 1, error_count = 0, validation_errors = 0\<rparr>
   \<and> files (snd (format_one sample_lib False False ''    '' ''latin-1'' False ''plugin/addon.xml''
        (\<lparr>formatted_count = 0, error_count = 0, validation_errors = 0\<rparr>,
         sample_world ''plugin/addon.xml'' latin1_manifest)))
        ''plugin/addon.xml''
     = Some latin1_formatted"
proof -
  let ?p = "''plugin/addon.xml''"
  let ?b = latin1_manifest
  let ?f = latin1_formatted
  let ?w = "sample_world ?p ?b"
  let ?c = "\<lparr>formatted_count = 0, error_count = 0, validation_errors = 0\<rparr>"
  have d1: "decode sample_lib ''latin-1'' ?b = Some ?b"
    by (simp add: sample_lib_def sample_decode_def latin1_manifest_def)
  have d2: "decode sample_lib ''utf-8'' ?b = None"
    by (simp add: sample_lib_def sample_decode_def latin1_manifest_def)
  have fs: "fromstring sample_lib ?b = Inr \<lparr>tag = ''addon'', attrib = [''id'' \<mapsto> ''x'']\<rparr>"
    by (simp add: sample_lib_def sample_fromstring_def xml_declaration_def latin1_manifest_def)
  have fl: "files ?w ?p = Some ?b" "\<not> locked ?w ?p" by (simp_all add: sample_world_def)
  have v: "validate_xml_structure sample_lib ?p ?w
      = (False, emit ERROR (Validation_error ?p Decode_error) ?w)"
    using fl(1) d2 by (simp add: validate_xml_structure_def)
  have on: "format_one sample_lib False False ''    '' ''latin-1'' True ?p (?c, ?w)
      = (\<lparr>formatted_count = 0, error_count = 0, validation_errors = 1\<rparr>,
         emit WARNING (Skipping_invalid ?p) (emit ERROR (Validation_error ?p Decode_error) ?w))"
    by (simp add: format_one_def v Let_def)
  have tp: "toprettyxml sample_lib ''latin-1'' ''    '' ?b = Inr ?f"
    by (simp add: sample_lib_def sample_toprettyxml_def latin1_manifest_def)
  have ex: "extract_cdata ?b = (?b, [])"
    by (simp add: extract_cdata_def cdata_finditer.simps cdata_match_def cdata_open_def
        latin1_manifest_def)
  have rb: "rstrip (remove_blank_lines ?f) @ ''\<newline>'' = ?f"
    by (simp add: remove_blank_lines_def latin1_formatted_def strip_def lstrip_def rstrip_def
        isspace_def)
  have pp: "pretty_print_xml sample_lib (Text ?b) ''latin-1'' ''    '' True = Inr ?f"
    by (simp add: pretty_print_xml_def ex tp rb)
  have ch: "content_changed ?b ?f"
    by (simp add: content_changed_def strip_def lstrip_def rstrip_def isspace_def
        latin1_manifest_def latin1_formatted_def)
  have st: "strip ?b \<noteq> []" by (simp add: strip_blank isspace_def latin1_manifest_def)
  have en: "encode sample_lib ''latin-1'' ?f = ?f" by (simp add: sample_lib_def)
  have fx: "format_xml_file sample_lib ?p False ''    '' ''latin-1'' ?w
      = (True, emit INFO (Formatted_file ?p) (write_file ?p ?f ?w))"
    using fl d1 fs st pp ch en by (simp add: format_xml_file_def)
  have off: "format_one sample_lib False False ''    '' ''latin-1'' False ?p (?c, ?w)
      = (\<lparr>formatted_count = 1, error_count = 0, validation_errors = 0\<rparr>,
         emit INFO (Formatted_file ?p) (write_file ?p ?f ?w))"
    by (simp add: format_one_unfold [OF refl] fx)
  have wr: "files (emit INFO (Formatted_file ?p) (write_file ?p ?f ?w)) ?p = Some ?f"
    by (simp add: emit_def write_file_def)
  show ?thesis
    unfolding off on v d1 fs fst_conv snd_conv wr by (intro conjI refl)
qed

section \<open>Occurrences of a text, and the scan for sections\<close>

text \<open>
  \<open>starts_within n g y\<close>: the text \<open>n\<close> occurs in \<open>g @ y\<close> at a position inside \<open>g\<close>.
  \<open>cdata_section m\<close>: the pattern matches \<open>m\<close> as a whole. \<open>cdata_gaps\<close> gives the texts
  between the matches of \<open>cdata_finditer\<close> (the spans that no match covers), \<open>weave\<close>
  puts gaps and items together again, and \<open>gaps_ok\<close> says what the scan guarantees: no
  opening delimiter begins in a gap before a match, every item is a section, and the
  search finds nothing in the last gap.
\<close>

fun starts_within :: "string \<Rightarrow> string \<Rightarrow> string \<Rightarrow> bool" where
  "starts_within n [] y = False"
| "starts_within n (c # g) y = (prefix n (c # g @ y) \<or> starts_within n g y)"

definition cdata_section :: "string \<Rightarrow> bool" where
  "cdata_section m = (cdata_match m = Some (m, []))"

function cdata_gaps :: "string \<Rightarrow> string list" where
  "cdata_gaps s =
     (case cdata_search s of
        None \<Rightarrow> [s]
      | Some (pre, m, rest) \<Rightarrow> pre # cdata_gaps rest)"
  by pat_completeness auto
termination
  by (relation "measure length") (auto dest: cdata_search_length)

declare cdata_gaps.simps [simp del]

fun weave :: "string list \<Rightarrow> string list \<Rightarrow> string" where
  "weave (g # gs) (m # ms) = g @ m @ weave gs ms"
| "weave gs [] = concat gs"
| "weave [] ms = concat ms"

lemma starts_within_append:
  "starts_within n (g1 @ g2) y \<longleftrightarrow> starts_within n g1 (g2 @ y) \<or> starts_within n g2 y"
  by (induction g1) auto

lemma starts_within_hd: "starts_within n g y \<Longrightarrow> n \<noteq> [] \<Longrightarrow> hd n \<in> set g"
  by (induction g) (auto simp: prefix_Cons neq_Nil_conv)

lemma starts_within_sublist: "n \<noteq> [] \<Longrightarrow> sublist n g \<Longrightarrow> starts_within n g y"
proof (induction g)
  case Nil
  then show ?case by simp
next
  case (Cons c g)
  from Cons.prems(2) have "prefix n (c # g) \<or> sublist n g" by (simp add: sublist_Cons_right)
  then show ?case
  proof
    assume "prefix n (c # g)"
    then have "prefix n ((c # g) @ y)" by (rule prefix_prefix)
    then show ?thesis by simp
  next
    assume "sublist n g"
    with Cons.IH Cons.prems(1) show ?thesis by simp
  qed
qed

lemma sublist_starts_within: "n \<noteq> [] \<Longrightarrow> sublist n s \<longleftrightarrow> starts_within n s []"
  by (induction s) (auto simp: sublist_Cons_right)

lemma starts_within_prefix_cong:
  assumes "take (length n - 1) y = take (length n - 1) y'"
  shows "starts_within n g y = starts_within n g y'"
proof (induction g)
  case Nil
  then show ?case by simp
next
  case (Cons c g)
  have "prefix n (c # g @ z) \<longleftrightarrow> prefix n (c # g @ take (length n - 1) z)" for z
  proof -
    have "prefix n (c # g @ z) \<longleftrightarrow> n = take (length n) (c # g @ z) "
      by (metis prefix_def append_take_drop_id take_is_prefix append_eq_conv_conj)
    also have "take (length n) (c # g @ z) = take (length n) (c # g @ take (length n - 1) z)"
      by (cases n) (auto simp: take_Cons')
    also have "n = take (length n) (c # g @ take (length n - 1) z)
        \<longleftrightarrow> prefix n (c # g @ take (length n - 1) z)"
      by (metis prefix_def append_take_drop_id take_is_prefix append_eq_conv_conj)
    finally show ?thesis .
  qed
  with assms Cons.IH show ?case by (metis starts_within.simps(2))
qed

lemma find_sub_Some:
  "find_sub n s = Some (b, a) \<Longrightarrow> s = b @ n @ a \<and> (n \<noteq> [] \<longrightarrow> \<not> starts_within n b n)"
proof (induction s arbitrary: b)
  case Nil
  then show ?case by (auto split: if_splits)
next
  case (Cons c cs)
  show ?case
  proof (cases "prefix n (c # cs)")
    case True
    with Cons.prems show ?thesis by (auto simp: prefix_def)
  next
    case False
    with Cons.prems obtain b' where b: "b = c # b'" and f: "find_sub n cs = Some (b', a)"
      by auto
    from Cons.IH [OF f] have cs: "cs = b' @ n @ a" and nw: "n \<noteq> [] \<longrightarrow> \<not> starts_within n b' n"
      by simp_all
    have "\<not> prefix n (c # b' @ n)"
    proof
      assume "prefix n (c # b' @ n)"
      then have "prefix n ((c # b' @ n) @ a)" by (rule prefix_prefix)
      with cs False show False by simp
    qed
    with b cs nw show ?thesis by simp
  qed
qed

lemma find_sub_None: "find_sub n s = None \<longleftrightarrow> \<not> sublist n s"
  by (induction s) (auto simp: sublist_Cons_right)

lemma find_sub_first:
  "n \<noteq> [] \<Longrightarrow> \<not> starts_within n b n \<Longrightarrow> find_sub n (b @ n @ a) = Some (b, a)"
proof (induction b)
  case Nil
  then show ?case by (cases n) auto
next
  case (Cons c b)
  from Cons.prems(2) have np: "\<not> prefix n (c # b @ n)" and nw: "\<not> starts_within n b n" by simp_all
  have "\<not> prefix n (c # b @ n @ a)"
  proof
    assume p: "prefix n (c # b @ n @ a)"
    have "prefix (c # b @ n) (c # b @ n @ a)" by simp
    with p have "prefix n (c # b @ n)"
      by (rule prefix_length_prefix) simp
    with np show False ..
  qed
  with Cons.IH [OF Cons.prems(1) nw] show ?case by simp
qed


lemma cdata_section_iff:
  "cdata_section m \<longleftrightarrow>
     (\<exists>body. m = cdata_open @ body @ cdata_close \<and> \<not> starts_within cdata_close body cdata_close)"
proof
  assume "cdata_section m"
  then obtain body where p: "prefix cdata_open m"
    and f: "find_sub cdata_close (drop (length cdata_open) m) = Some (body, [])"
    and m: "m = cdata_open @ body @ cdata_close"
    by (auto simp: cdata_section_def cdata_match_def split: if_splits option.splits)
  from find_sub_Some [OF f] have "\<not> starts_within cdata_close body cdata_close"
    by (simp add: cdata_close_def)
  with m show "\<exists>body. m = cdata_open @ body @ cdata_close
      \<and> \<not> starts_within cdata_close body cdata_close" by blast
next
  assume "\<exists>body. m = cdata_open @ body @ cdata_close
      \<and> \<not> starts_within cdata_close body cdata_close"
  then obtain body where m: "m = cdata_open @ body @ cdata_close"
    and n: "\<not> starts_within cdata_close body cdata_close" by blast
  have "find_sub cdata_close (body @ cdata_close @ []) = Some (body, [])"
    by (rule find_sub_first [OF _ n]) (simp add: cdata_close_def)
  with m show "cdata_section m"
    by (simp add: cdata_section_def cdata_match_def)
qed

lemma cdata_match_Some:
  assumes "cdata_match s = Some (m, rest)"
  shows "s = m @ rest \<and> cdata_section m"
proof -
  from assms obtain body where p: "prefix cdata_open s"
    and f: "find_sub cdata_close (drop (length cdata_open) s) = Some (body, rest)"
    and m: "m = cdata_open @ body @ cdata_close"
    by (auto simp: cdata_match_def split: if_splits option.splits)
  from find_sub_Some [OF f] have d: "drop (length cdata_open) s = body @ cdata_close @ rest"
    and n: "\<not> starts_within cdata_close body cdata_close"
    by (simp_all add: cdata_close_def)
  from p obtain t where "s = cdata_open @ t" by (auto simp: prefix_def)
  with d have "s = cdata_open @ body @ cdata_close @ rest" by simp
  with m n show ?thesis by (auto simp: cdata_section_iff)
qed

lemma cdata_match_section:
  assumes "cdata_section m"
  shows "cdata_match (m @ r) = Some (m, r)"
proof -
  from assms obtain body where m: "m = cdata_open @ body @ cdata_close"
    and n: "\<not> starts_within cdata_close body cdata_close"
    by (auto simp: cdata_section_iff)
  have "find_sub cdata_close (body @ cdata_close @ r) = Some (body, r)"
    by (rule find_sub_first [OF _ n]) (simp add: cdata_close_def)
  with m show ?thesis by (simp add: cdata_match_def)
qed

lemma cdata_match_None_later:
  assumes "cdata_match s = None" and "prefix cdata_open s"
  shows "\<not> sublist cdata_close (drop (length cdata_open) s)"
  using assms by (auto simp: cdata_match_def find_sub_None split: option.splits)

lemma cdata_search_Some:
  "cdata_search s = Some (pre, m, rest) \<Longrightarrow>
     s = pre @ m @ rest \<and> cdata_section m \<and> \<not> starts_within cdata_open pre (m @ rest)"
proof (induction s arbitrary: pre)
  case Nil
  then show ?case by simp
next
  case (Cons c cs)
  show ?case
  proof (cases "cdata_match (c # cs)")
    case (Some r)
    with Cons.prems have "cdata_match (c # cs) = Some (m, rest)" and "pre = []"
      by (cases r; auto)+
    with cdata_match_Some [of "c # cs" m rest] show ?thesis by simp
  next
    case None
    with Cons.prems obtain pre' where pre: "pre = c # pre'"
      and s: "cdata_search cs = Some (pre', m, rest)" by auto
    from Cons.IH [OF s] have cs: "cs = pre' @ m @ rest" and sec: "cdata_section m"
      and nw: "\<not> starts_within cdata_open pre' (m @ rest)" by simp_all
    have "\<not> prefix cdata_open (c # cs)"
    proof
      assume p: "prefix cdata_open (c # cs)"
      from cdata_match_None_later [OF None p]
      have nc: "\<not> sublist cdata_close (drop (length cdata_open) (c # cs))" .
      from sec obtain body where m: "m = cdata_open @ body @ cdata_close"
        by (auto simp: cdata_section_iff)
      define x where "x = c # pre' @ cdata_open @ body"
      have len: "length cdata_open - length x = 0" by (simp add: x_def)
      have "c # cs = x @ cdata_close @ rest" using cs m by (simp add: x_def)
      then have "drop (length cdata_open) (c # cs)
          = drop (length cdata_open) x @ cdata_close @ rest"
        by (simp only: drop_append len drop0)
      with nc show False by (metis sublist_appendI)
    qed
    with pre cs sec nw show ?thesis by simp
  qed
qed

lemma starts_within_open_cong:
  assumes "prefix cdata_open y"
  shows "starts_within cdata_open g y = starts_within cdata_open g cdata_open"
proof (rule starts_within_prefix_cong)
  from assms obtain t where "y = cdata_open @ t" by (auto simp: prefix_def)
  then show "take (length cdata_open - 1) y = take (length cdata_open - 1) cdata_open"
    by simp
qed

lemma cdata_section_prefix: "cdata_section m \<Longrightarrow> prefix cdata_open (m @ r)"
  by (auto simp: cdata_section_iff)

lemma cdata_search_section:
  assumes "cdata_section m" and "\<not> starts_within cdata_open g cdata_open"
  shows "cdata_search (g @ m @ r) = Some (g, m, r)"
proof -
  from assms have "\<not> starts_within cdata_open g (m @ r)"
    by (simp add: starts_within_open_cong [OF cdata_section_prefix])
  then show ?thesis
  proof (induction g)
    case Nil
    from cdata_match_section [OF assms(1), of r] show ?case
      by (cases "m @ r") (auto simp: cdata_match_def cdata_open_def)
  next
    case (Cons c g)
    then have "\<not> prefix cdata_open (c # g @ m @ r)" and "\<not> starts_within cdata_open g (m @ r)"
      by simp_all
    with Cons.IH show ?case by (simp add: cdata_match_def)
  qed
qed

lemma cdata_search_None:
  "cdata_search s = None \<longleftrightarrow> (\<forall>a m b. cdata_section m \<longrightarrow> s \<noteq> a @ m @ b)"
proof
  assume n: "cdata_search s = None"
  show "\<forall>a m b. cdata_section m \<longrightarrow> s \<noteq> a @ m @ b"
  proof (intro allI impI notI)
    fix a m b
    assume sec: "cdata_section m" and s: "s = a @ m @ b"
    from n s show False
    proof (induction a arbitrary: s)
      case Nil
      with cdata_match_section [OF sec, of b] show ?case
        by (cases "m @ b") (auto simp: cdata_match_def cdata_open_def)
    next
      case (Cons c a)
      from Cons.prems have "cdata_search (a @ m @ b) = None"
        by (auto split: option.splits)
      with Cons.IH show ?case by blast
    qed
  qed
next
  assume a: "\<forall>a m b. cdata_section m \<longrightarrow> s \<noteq> a @ m @ b"
  show "cdata_search s = None"
  proof (rule ccontr)
    assume "cdata_search s \<noteq> None"
    then obtain pre m rest where "cdata_search s = Some (pre, m, rest)" by auto
    from cdata_search_Some [OF this] a show False by blast
  qed
qed

fun gaps_ok :: "string list \<Rightarrow> string list \<Rightarrow> bool" where
  "gaps_ok [g] [] = (cdata_search g = None)"
| "gaps_ok (g # gs) (m # ms) =
     (\<not> starts_within cdata_open g cdata_open \<and> cdata_section m \<and> gaps_ok gs ms)"
| "gaps_ok gs ms = False"

lemma cdata_scan:
  "gaps_ok (cdata_gaps s) (cdata_finditer s) \<and> weave (cdata_gaps s) (cdata_finditer s) = s"
proof (induction s rule: cdata_finditer.induct)
  case (1 s)
  show ?case
  proof (cases "cdata_search s")
    case None
    then show ?thesis by (simp add: cdata_finditer.simps [of s] cdata_gaps.simps [of s])
  next
    case (Some r)
    obtain pre m rest where r: "r = (pre, m, rest)" by (cases r)
    with Some have s: "cdata_search s = Some (pre, m, rest)" by simp
    from cdata_search_Some [OF s] have d: "s = pre @ m @ rest" and sec: "cdata_section m"
      and nw: "\<not> starts_within cdata_open pre (m @ rest)" by simp_all
    from nw sec have "\<not> starts_within cdata_open pre cdata_open"
      by (simp add: starts_within_open_cong [OF cdata_section_prefix])
    moreover from "1.IH" [OF s refl refl]
    have "gaps_ok (cdata_gaps rest) (cdata_finditer rest)"
      and "weave (cdata_gaps rest) (cdata_finditer rest) = rest" by simp_all
    ultimately show ?thesis
      using s sec by (simp add: cdata_finditer.simps [of s] cdata_gaps.simps [of s] d [symmetric])
  qed
qed

lemma cdata_scan_weave:
  "gaps_ok gs ms \<Longrightarrow> cdata_finditer (weave gs ms) = ms \<and> cdata_gaps (weave gs ms) = gs"
proof (induction gs ms rule: gaps_ok.induct)
  case (1 g)
  then show ?case by (simp add: cdata_finditer.simps [of g] cdata_gaps.simps [of g])
next
  case (2 g gs m ms)
  then have "cdata_search (g @ m @ weave gs ms) = Some (g, m, weave gs ms)"
    by (simp add: cdata_search_section)
  with 2 show ?case
    by (simp add: cdata_finditer.simps [of "g @ m @ weave gs ms"]
        cdata_gaps.simps [of "g @ m @ weave gs ms"])
qed simp_all

lemma gaps_ok_length: "gaps_ok gs ms \<Longrightarrow> length gs = Suc (length ms)"
  by (induction gs ms rule: gaps_ok.induct) simp_all

lemma gaps_ok_sections: "gaps_ok gs ms \<Longrightarrow> m \<in> set ms \<Longrightarrow> cdata_section m"
  by (induction gs ms rule: gaps_ok.induct) auto

lemma replace_none: "old \<noteq> [] \<Longrightarrow> \<not> sublist old s \<Longrightarrow> replace old new s = s"
  by (induction s) (auto simp: sublist_Cons_right)

lemma replace_skip:
  "old \<noteq> [] \<Longrightarrow> \<not> starts_within old g y \<Longrightarrow> replace old new (g @ y) = g @ replace old new y"
  by (induction g) auto

lemma replace_hit: "old \<noteq> [] \<Longrightarrow> replace old new (old @ y) = new @ replace old new y"
  by (cases old) auto

lemma starts_within_butlast:
  assumes "n \<noteq> []"
  shows "starts_within n g n \<longleftrightarrow> sublist n (g @ butlast n)"
proof -
  have "take (length n - 1) n = take (length n - 1) (butlast n @ [])"
    by (simp add: butlast_conv_take)
  then have "starts_within n g n = starts_within n g (butlast n @ [])"
    by (rule starts_within_prefix_cong)
  moreover have "\<not> starts_within n (butlast n) []"
  proof
    assume "starts_within n (butlast n) []"
    with assms have "sublist n (butlast n)" by (simp add: sublist_starts_within)
    then have "length n \<le> length (butlast n)" by (rule sublist_length_le)
    with assms show False by (cases n rule: rev_cases) simp_all
  qed
  ultimately show ?thesis
    using assms by (simp add: sublist_starts_within starts_within_append)
qed

lemma cdata_section_suffix: "cdata_section m \<Longrightarrow> suffix cdata_close m"
  by (auto simp: cdata_section_iff suffix_def)

lemma closer_not_crossing:
  assumes u: "prefix cdata_open u" and nc: "\<not> sublist cdata_close u"
    and eq: "t @ u = x @ cdata_close @ y"
  shows "\<exists>v. t = x @ cdata_close @ v"
proof -
  from u obtain u' where u': "u = cdata_open @ u'" by (auto simp: prefix_def)
  from eq consider z where "t = x @ z" "z @ u = cdata_close @ y"
    | z where "t @ z = x" "u = z @ cdata_close @ y"
    by (auto simp: append_eq_append_conv2)
  then show ?thesis
  proof cases
    case 1
    from 1(2) consider v where "z = cdata_close @ v" "v @ u = y"
      | v where "z @ v = cdata_close" "u = v @ y"
      by (auto simp: append_eq_append_conv2)
    then show ?thesis
    proof cases
      case 1
      with \<open>t = x @ z\<close> show ?thesis by simp
    next
      case 2
      show ?thesis
      proof (cases "v = []")
        case True
        with 2 \<open>t = x @ z\<close> show ?thesis by simp
      next
        case False
        with 2(2) u' have "hd v = CHR ''<''" by (cases v) (auto simp: cdata_open_def)
        moreover from False 2(1) have "hd v \<in> set cdata_close"
          by (cases v) (auto dest!: arg_cong [where f = set])
        ultimately show ?thesis by (simp add: cdata_close_def)
      qed
    qed
  next
    case 2
    with nc show ?thesis by auto
  qed
qed

lemma section_not_crossing:
  assumes "suffix cdata_close m" "prefix cdata_open u" "\<not> sublist cdata_close u"
    and p: "prefix m (a2 @ u)"
  shows "prefix m a2"
proof -
  from assms(1) obtain x where m: "m = x @ cdata_close" by (auto simp: suffix_def)
  from p obtain y where "a2 @ u = x @ cdata_close @ y" by (auto simp: prefix_def m)
  from closer_not_crossing [OF assms(2,3) this] m show ?thesis by (auto simp: prefix_def)
qed

lemma replace_before_suffix:
  assumes "old \<noteq> []" and "\<not> sublist old u"
  shows "(\<forall>a1 a2. a = a1 @ a2 \<longrightarrow> prefix old (a2 @ u) \<longrightarrow> prefix old a2)
     \<Longrightarrow> replace old new (a @ u) = replace old new a @ u"
proof (induction a rule: length_induct)
  case (1 a)
  show ?case
  proof (cases a)
    case Nil
    with assms show ?thesis by (simp add: replace_none)
  next
    case (Cons c cs)
    show ?thesis
    proof (cases "prefix old (a @ u)")
      case True
      with "1.prems" have "prefix old a" by (metis append_Nil)
      then obtain a' where a: "a = old @ a'" by (auto simp: prefix_def)
      have "\<forall>a1 a2. a' = a1 @ a2 \<longrightarrow> prefix old (a2 @ u) \<longrightarrow> prefix old a2"
        using "1.prems" a by (metis append.assoc)
      moreover from a assms(1) have "length a' < length a" by simp
      ultimately have "replace old new (a' @ u) = replace old new a' @ u"
        using "1.IH" by blast
      with a assms(1) show ?thesis by (simp add: replace_hit)
    next
      case False
      then have np: "\<not> prefix old a" by (metis prefix_prefix)
      have "\<forall>a1 a2. cs = a1 @ a2 \<longrightarrow> prefix old (a2 @ u) \<longrightarrow> prefix old a2"
        using "1.prems" Cons by (metis append_Cons)
      moreover from Cons have "length cs < length a" by simp
      ultimately have "replace old new (cs @ u) = replace old new cs @ u"
        using "1.IH" by blast
      with False np Cons assms(1) show ?thesis by simp
    qed
  qed
qed

lemma extract_loop_suffix:
  assumes "prefix cdata_open u" "\<not> sublist cdata_close u"
  shows "\<forall>m \<in> set ms. suffix cdata_close m \<Longrightarrow>
     \<exists>a'. fst (extract_loop i ms (a @ u) secs) = a' @ u"
proof (induction ms arbitrary: i a secs)
  case Nil
  then show ?case by simp
next
  case (Cons m ms)
  then have sm: "suffix cdata_close m" by simp
  then have ne: "m \<noteq> []" by (auto simp: suffix_def cdata_close_def)
  have "\<not> sublist m u"
  proof
    assume "sublist m u"
    moreover from sm have "sublist cdata_close m" by (auto simp: suffix_def)
    ultimately have "sublist cdata_close u" by (metis sublist_order.order_trans)
    with assms(2) show False ..
  qed
  moreover have "\<forall>a1 a2. a = a1 @ a2 \<longrightarrow> prefix m (a2 @ u) \<longrightarrow> prefix m a2"
    using section_not_crossing [OF sm assms] by blast
  ultimately have "replace m (placeholder i) (a @ u) = replace m (placeholder i) a @ u"
    using replace_before_suffix [OF ne] by blast
  with Cons.IH [of "Suc i" "replace m (placeholder i) a"] Cons.prems show ?case by simp
qed

lemma cdata_search_unterminated:
  assumes "prefix cdata_open u" "\<not> sublist cdata_close u" "cdata_search t = None"
  shows "cdata_search (t @ u) = None"
  unfolding cdata_search_None
proof (intro allI impI notI)
  fix a m b
  assume sec: "cdata_section m" and eq: "t @ u = a @ m @ b"
  from sec obtain x where m: "m = x @ cdata_close"
    using cdata_section_suffix by (auto simp: suffix_def)
  with eq have "t @ u = (a @ x) @ cdata_close @ b" by simp
  from closer_not_crossing [OF assms(1,2) this] obtain v where "t = a @ m @ v"
    using m by auto
  with assms(3) sec show False by (auto simp: cdata_search_None)
qed

lemma gaps_ok_unterminated:
  assumes "prefix cdata_open u" "\<not> sublist cdata_close u"
  shows "gaps_ok gs ms \<Longrightarrow> gaps_ok (butlast gs @ [last gs @ u]) ms
     \<and> weave (butlast gs @ [last gs @ u]) ms = weave gs ms @ u"
proof (induction gs ms rule: gaps_ok.induct)
  case (1 g)
  with cdata_search_unterminated [OF assms] show ?case by simp
next
  case (2 g gs m ms)
  then have "gs \<noteq> []" by (cases gs) auto
  with 2 show ?case by simp
qed simp_all

lemma cdata_finditer_unterminated:
  assumes "prefix cdata_open u" "\<not> sublist cdata_close u"
  shows "cdata_finditer (a @ u) = cdata_finditer a"
proof -
  from cdata_scan [of a] have ok: "gaps_ok (cdata_gaps a) (cdata_finditer a)"
    and w: "weave (cdata_gaps a) (cdata_finditer a) = a" by simp_all
  from gaps_ok_unterminated [OF assms ok] w
  have "gaps_ok (butlast (cdata_gaps a) @ [last (cdata_gaps a) @ u]) (cdata_finditer a)"
    and "weave (butlast (cdata_gaps a) @ [last (cdata_gaps a) @ u]) (cdata_finditer a) = a @ u"
    by simp_all
  with cdata_scan_weave show ?thesis by metis
qed

lemma cdata_section_sublist:
  "cdata_section m \<longleftrightarrow>
     (\<exists>body. m = cdata_open @ body @ cdata_close
        \<and> \<not> sublist cdata_close (body @ butlast cdata_close))"
  by (simp add: cdata_section_iff starts_within_butlast cdata_close_def)

lemma no_pair_in_tail:
  assumes "cdata_search t = None"
  shows "t \<noteq> a @ cdata_open @ body @ cdata_close @ b"
proof
  assume t: "t = a @ cdata_open @ body @ cdata_close @ b"
  have "sublist cdata_close (body @ cdata_close @ b)" by simp
  then obtain body' rest where "find_sub cdata_close (body @ cdata_close @ b) = Some (body', rest)"
    using find_sub_None [of cdata_close "body @ cdata_close @ b"] by (cases "find_sub cdata_close (body @ cdata_close @ b)") auto
  from find_sub_Some [OF this]
  have e: "body @ cdata_close @ b = body' @ cdata_close @ rest"
    and n: "\<not> starts_within cdata_close body' cdata_close"
    by (simp_all add: cdata_close_def)
  from n have "cdata_section (cdata_open @ body' @ cdata_close)"
    by (auto simp: cdata_section_iff)
  moreover from t e have "t = a @ (cdata_open @ body' @ cdata_close) @ rest" by simp
  ultimately show False using assms by (simp only: cdata_search_None) blast
qed

lemma gaps_ok_last: "gaps_ok gs ms \<Longrightarrow> cdata_search (last gs) = None"
  by (induction gs ms rule: gaps_ok.induct) (auto split: if_splits)

lemma gaps_ok_butlast:
  "gaps_ok gs ms \<Longrightarrow> g \<in> set (butlast gs) \<Longrightarrow> \<not> starts_within cdata_open g cdata_open"
  by (induction gs ms rule: gaps_ok.induct) (auto split: if_splits)

lemma plain_body_section:
  assumes "CHR '']'' \<notin> set body"
  shows "cdata_section (cdata_open @ body @ cdata_close)"
proof -
  have "\<not> starts_within cdata_close body cdata_close"
  proof
    assume "starts_within cdata_close body cdata_close"
    then have "hd cdata_close \<in> set body" by (rule starts_within_hd) (simp add: cdata_close_def)
    with assms show False by (simp add: cdata_close_def)
  qed
  then show ?thesis by (auto simp: cdata_section_iff)
qed

lemma adjacent_sections:
  assumes "cdata_section m1" "cdata_section m2"
  shows "cdata_finditer (m1 @ m2 @ r) = m1 # m2 # cdata_finditer r"
proof -
  have "cdata_search ([] @ m1 @ m2 @ r) = Some ([], m1, m2 @ r)"
    by (rule cdata_search_section [OF assms(1)]) simp
  moreover have "cdata_search ([] @ m2 @ r) = Some ([], m2, r)"
    by (rule cdata_search_section [OF assms(2)]) simp
  ultimately show ?thesis
    by (simp add: cdata_finditer.simps [of "m1 @ m2 @ r"] cdata_finditer.simps [of "m2 @ r"])
qed

text \<open>
  C6. The matches are disjoint pieces of the text, in order from left to right: the
  text is the gaps and the matches woven together. Every match is the opening
  delimiter, a body and the closing delimiter, where the closing delimiter does not
  begin earlier (the lazy match); a body without a closing bracket, line breaks or
  not, is always matched. No opening delimiter begins in a gap before a match, and
  after the last match no opening delimiter is followed by a closing one. Two sections
  side by side are two matches. A text that begins with the opening delimiter and
  holds no closing delimiter adds no match and stays as it is at the end of the working
  text.
\<close>

theorem cdata_extraction_scan:
  "weave (cdata_gaps s) (cdata_finditer s) = s
   \<and> length (cdata_gaps s) = Suc (length (cdata_finditer s))
   \<and> (\<forall>m \<in> set (cdata_finditer s). cdata_section m)
   \<and> (cdata_section m \<longleftrightarrow>
        (\<exists>body. m = cdata_open @ body @ cdata_close
           \<and> \<not> sublist cdata_close (body @ butlast cdata_close)))
   \<and> (CHR '']'' \<notin> set body \<longrightarrow> cdata_section (cdata_open @ body @ cdata_close))
   \<and> (\<forall>g \<in> set (butlast (cdata_gaps s)). \<not> sublist cdata_open (g @ butlast cdata_open))
   \<and> (\<forall>a body b. last (cdata_gaps s) \<noteq> a @ cdata_open @ body @ cdata_close @ b)
   \<and> (cdata_section m1 \<and> cdata_section m2 \<longrightarrow>
        cdata_finditer (m1 @ m2 @ r) = m1 # m2 # cdata_finditer r)
   \<and> (prefix cdata_open u \<and> \<not> sublist cdata_close u \<longrightarrow>
        cdata_finditer (t @ u) = cdata_finditer t
        \<and> (\<exists>t'. fst (extract_cdata (t @ u)) = t' @ u))"
proof -
  note sc = cdata_scan [of s]
  from sc have ok: "gaps_ok (cdata_gaps s) (cdata_finditer s)" by (rule conjunct1)
  have 1: "weave (cdata_gaps s) (cdata_finditer s) = s" using sc by (rule conjunct2)
  have 2: "length (cdata_gaps s) = Suc (length (cdata_finditer s))"
    using ok by (rule gaps_ok_length)
  have 3: "\<forall>m \<in> set (cdata_finditer s). cdata_section m"
  proof
    fix m assume "m \<in> set (cdata_finditer s)"
    with ok show "cdata_section m" by (rule gaps_ok_sections)
  qed
  note 4 = cdata_section_sublist [of m]
  have 5: "CHR '']'' \<notin> set body \<longrightarrow> cdata_section (cdata_open @ body @ cdata_close)"
    by (rule impI) (rule plain_body_section)
  have 6: "\<forall>g \<in> set (butlast (cdata_gaps s)). \<not> sublist cdata_open (g @ butlast cdata_open)"
  proof
    fix g assume "g \<in> set (butlast (cdata_gaps s))"
    from gaps_ok_butlast [OF ok this] show "\<not> sublist cdata_open (g @ butlast cdata_open)"
      by (simp add: starts_within_butlast cdata_open_def)
  qed
  have 7: "\<forall>a body b. last (cdata_gaps s) \<noteq> a @ cdata_open @ body @ cdata_close @ b"
    by (intro allI) (rule no_pair_in_tail [OF gaps_ok_last [OF ok]])
  have 8: "cdata_section m1 \<and> cdata_section m2 \<longrightarrow>
        cdata_finditer (m1 @ m2 @ r) = m1 # m2 # cdata_finditer r"
  proof
    assume "cdata_section m1 \<and> cdata_section m2"
    then have "cdata_section m1" "cdata_section m2" by (rule conjunct1, rule conjunct2)
    then show "cdata_finditer (m1 @ m2 @ r) = m1 # m2 # cdata_finditer r"
      by (rule adjacent_sections)
  qed
  have 9: "prefix cdata_open u \<and> \<not> sublist cdata_close u \<longrightarrow>
        cdata_finditer (t @ u) = cdata_finditer t
        \<and> (\<exists>t'. fst (extract_cdata (t @ u)) = t' @ u)"
  proof
    assume a: "prefix cdata_open u \<and> \<not> sublist cdata_close u"
    then have pu: "prefix cdata_open u" and nu: "\<not> sublist cdata_close u"
      by (rule conjunct1, rule conjunct2)
    have f: "cdata_finditer (t @ u) = cdata_finditer t"
      using pu nu by (rule cdata_finditer_unterminated)
    from cdata_scan [of t] have okt: "gaps_ok (cdata_gaps t) (cdata_finditer t)"
      by (rule conjunct1)
    have "\<forall>m \<in> set (cdata_finditer t). suffix cdata_close m"
    proof
      fix m assume "m \<in> set (cdata_finditer t)"
      with okt have "cdata_section m" by (rule gaps_ok_sections)
      then show "suffix cdata_close m" by (rule cdata_section_suffix)
    qed
    with pu nu have "\<exists>t'. fst (extract_loop 0 (cdata_finditer t) (t @ u) []) = t' @ u"
      by (rule extract_loop_suffix)
    then have "\<exists>t'. fst (extract_cdata (t @ u)) = t' @ u"
      by (simp only: extract_cdata_def f)
    with f show "cdata_finditer (t @ u) = cdata_finditer t
        \<and> (\<exists>t'. fst (extract_cdata (t @ u)) = t' @ u)"
      by (rule conjI)
  qed
  show ?thesis by (intro conjI 1 2 3 4 5 6 7 8 9)
qed

theorem cdata_extraction_scan_witness:
  "cdata_finditer (''<a><![CDATA[x\<newline>y]]><![CDATA[z]]>'' @ ''<![CDATA[w</a>'')
     = [''<![CDATA[x\<newline>y]]>'', ''<![CDATA[z]]>'']
   \<and> cdata_finditer (''<![CDATA[x\<newline>y]]>'' @ ''<![CDATA[z]]>'' @ ''</a>'')
     = [''<![CDATA[x\<newline>y]]>'', ''<![CDATA[z]]>'']
   \<and> (\<exists>t'. fst (extract_cdata (''<a><![CDATA[x\<newline>y]]><![CDATA[z]]>'' @ ''<![CDATA[w</a>''))
          = t' @ ''<![CDATA[w</a>'')"
proof -
  have u: "prefix cdata_open ''<![CDATA[w</a>'' \<and> \<not> sublist cdata_close ''<![CDATA[w</a>''"
    by (simp add: cdata_open_def cdata_close_def find_sub_None [symmetric])
  have m: "cdata_section ''<![CDATA[x\<newline>y]]>'' \<and> cdata_section ''<![CDATA[z]]>''"
    by (simp add: cdata_section_def cdata_match_def cdata_open_def cdata_close_def)
  have f: "cdata_finditer ''<a><![CDATA[x\<newline>y]]><![CDATA[z]]>''
      = [''<![CDATA[x\<newline>y]]>'', ''<![CDATA[z]]>'']"
    by (simp add: cdata_finditer.simps cdata_match_def cdata_open_def cdata_close_def)
  have e: "cdata_finditer ''</a>'' = []"
    by (simp add: cdata_finditer.simps cdata_match_def cdata_open_def cdata_close_def)
  from cdata_extraction_scan [where u = "''<![CDATA[w</a>''"
      and t = "''<a><![CDATA[x\<newline>y]]><![CDATA[z]]>''"
      and ?m1.0 = "''<![CDATA[x\<newline>y]]>''" and ?m2.0 = "''<![CDATA[z]]>''" and r = "''</a>''"]
    u m
  have "cdata_finditer (''<a><![CDATA[x\<newline>y]]><![CDATA[z]]>'' @ ''<![CDATA[w</a>'')
        = cdata_finditer ''<a><![CDATA[x\<newline>y]]><![CDATA[z]]>''"
    and "cdata_finditer (''<![CDATA[x\<newline>y]]>'' @ ''<![CDATA[z]]>'' @ ''</a>'')
        = ''<![CDATA[x\<newline>y]]>'' # ''<![CDATA[z]]>'' # cdata_finditer ''</a>''"
    and "\<exists>t'. fst (extract_cdata (''<a><![CDATA[x\<newline>y]]><![CDATA[z]]>'' @ ''<![CDATA[w</a>''))
          = t' @ ''<![CDATA[w</a>''"
    by blast+
  with f e show ?thesis by (simp only:)
qed

section \<open>Lines of the output\<close>

lemma split_nl_not_Nil: "split_nl s \<noteq> []"
  by (induction s) (auto split: list.splits)













section \<open>Placeholder tokens in a text\<close>

text \<open>
  \<open>token_core\<close> is the text that every placeholder holds behind its first two
  underscores; a text is \<open>core_free\<close> when it does not hold it. \<open>count_occ n s\<close> counts
  the positions of \<open>s\<close> at which \<open>n\<close> occurs. \<open>clear_start y\<close> says that \<open>y\<close> does not go
  on a token's last underscores to the core of another token.
\<close>

definition token_core :: string where
  "token_core = ''CDATA_PLACEHOLDER''"

definition core_free :: "string \<Rightarrow> bool" where
  "core_free s = (\<not> sublist token_core s)"

fun count_occ :: "string \<Rightarrow> string \<Rightarrow> nat" where
  "count_occ n [] = 0"
| "count_occ n (c # cs) = (if prefix n (c # cs) then 1 else 0) + count_occ n cs"

definition token_head :: string where
  "token_head = ''__CDATA_PLACEHOLDER''"

lemma str_of_nat_digits: "set (str_of_nat n) \<subseteq> set ''0123456789''"
proof (induction n rule: str_of_nat.induct)
  case (1 n)
  have d: "digit k \<in> set ''0123456789''" if "k < 10" for k
    using that unfolding digit_def by (intro nth_mem) simp
  show ?case
  proof (cases "n < 10")
    case True
    with d [of n] show ?thesis by (simp add: str_of_nat.simps [of n])
  next
    case False
    with "1.IH" d [of "n mod 10"] show ?thesis
      by (simp add: str_of_nat.simps [of n])
  qed
qed

lemma str_of_nat_not_Nil: "str_of_nat n \<noteq> []"
  by (simp add: str_of_nat.simps [of n])

lemma digit_inj: "a < 10 \<Longrightarrow> b < 10 \<Longrightarrow> digit a = digit b \<Longrightarrow> a = b"
proof -
  assume "a < 10" "b < 10" "digit a = digit b"
  moreover have "distinct ''0123456789''" by simp
  ultimately show "a = b"
    unfolding digit_def by (simp add: nth_eq_iff_index_eq)
qed

lemma str_of_nat_inj: "str_of_nat n = str_of_nat m \<Longrightarrow> n = m"
proof (induction n arbitrary: m rule: str_of_nat.induct)
  case (1 n)
  show ?case
  proof (cases "n < 10")
    case True
    with "1.prems" have e: "[digit n] = str_of_nat m" by (simp add: str_of_nat.simps [of n])
    show ?thesis
    proof (cases "m < 10")
      case m: True
      with e True show ?thesis by (simp add: str_of_nat.simps [of m] digit_inj)
    next
      case False
      with e str_of_nat_not_Nil [of "m div 10"] show ?thesis
        by (simp add: str_of_nat.simps [of m])
    qed
  next
    case False
    with "1.prems" have e: "str_of_nat (n div 10) @ [digit (n mod 10)] = str_of_nat m"
      by (simp add: str_of_nat.simps [of n])
    show ?thesis
    proof (cases "m < 10")
      case True
      with e str_of_nat_not_Nil [of "n div 10"] show ?thesis
        by (simp add: str_of_nat.simps [of m])
    next
      case m: False
      with e have "str_of_nat (n div 10) = str_of_nat (m div 10)"
        and "digit (n mod 10) = digit (m mod 10)"
        by (simp_all add: str_of_nat.simps [of m])
      with "1.IH" [OF False] have "n div 10 = m div 10" and "n mod 10 = m mod 10"
        by (simp_all add: digit_inj)
      then show ?thesis by (metis div_mult_mod_eq)
    qed
  qed
qed

lemma placeholder_head:
  "placeholder i = token_head @ CHR ''_'' # str_of_nat i @ ''__''"
  by (simp add: placeholder_def token_head_def)

lemma token_head_core: "token_head = ''__'' @ token_core"
  by (simp add: token_head_def token_core_def)

definition token_alphabet :: string where
  "token_alphabet = ''_CDATAPLEHOR0123456789''"

lemma placeholder_chars: "set (placeholder i) \<subseteq> set token_alphabet"
proof -
  have "set ''__CDATA_PLACEHOLDER_'' \<subseteq> set token_alphabet"
    and "set ''__'' \<subseteq> set token_alphabet"
    and "set ''0123456789'' \<subseteq> set token_alphabet"
    by (simp_all add: token_alphabet_def)
  moreover have "set (placeholder i)
      = set ''__CDATA_PLACEHOLDER_'' \<union> (set (str_of_nat i) \<union> set ''__'')"
    by (simp only: placeholder_def set_append)
  ultimately show ?thesis using str_of_nat_digits [of i] by blast
qed

lemma placeholder_no_char: "c \<notin> set token_alphabet \<Longrightarrow> c \<notin> set (placeholder i)"
  using placeholder_chars by blast

lemma token_alphabet_facts:
  "CHR ''<'' \<notin> set token_alphabet" "CHR ''>'' \<notin> set token_alphabet"
  "\<forall>c \<in> set token_alphabet. \<not> isspace c"
  by (simp_all add: token_alphabet_def isspace_def)

lemma placeholder_not_Nil: "placeholder i \<noteq> []"
  by (simp add: placeholder_def)

lemma placeholder_core: "sublist token_core (placeholder i)"
proof -
  have "placeholder i = ''__'' @ token_core @ (CHR ''_'' # str_of_nat i @ ''__'')"
    by (simp add: placeholder_def token_core_def)
  then show ?thesis by (metis sublist_appendI)
qed

lemma core_free_no_token: "core_free s \<Longrightarrow> \<not> sublist (placeholder i) s"
  unfolding core_free_def using placeholder_core sublist_order.order_trans by blast

lemma core_free_sublist: "core_free s \<Longrightarrow> sublist t s \<Longrightarrow> core_free t"
  unfolding core_free_def using sublist_order.order_trans by blast

text \<open>The head of a token has no border: no proper suffix of it is a prefix of it.\<close>

lemma token_head_unbordered:
  "token_head = x @ us \<Longrightarrow> prefix us token_head \<Longrightarrow> x \<noteq> [] \<Longrightarrow> us = []"
  unfolding token_head_def by (auto simp: Cons_eq_append_conv)

lemma cdata_open_unbordered:
  "cdata_open = x @ us \<Longrightarrow> prefix us cdata_open \<Longrightarrow> x \<noteq> [] \<Longrightarrow> us = []"
  unfolding cdata_open_def by (auto simp: Cons_eq_append_conv)

definition clear_start :: "string \<Rightarrow> bool" where
  "clear_start y = (\<not> prefix token_core y \<and> \<not> prefix (CHR ''_'' # token_core) y)"

lemma prefix_not_reaching:
  assumes "prefix n (x @ t @ y)" "t \<noteq> []" "hd t \<notin> set n"
  shows "prefix n x"
proof -
  from assms(1) have "prefix n x \<or> (\<exists>us. n = x @ us \<and> prefix us (t @ y))"
    by (simp only: prefix_append)
  then consider "prefix n x" | us where "n = x @ us" "prefix us (t @ y)"
    by blast
  then show ?thesis
  proof cases
    case 1
    then show ?thesis .
  next
    case 2
    show ?thesis
    proof (cases us)
      case Nil
      with 2 show ?thesis by simp
    next
      case (Cons u us')
      with 2(2) assms(2) have "u = hd t" by (cases t) auto
      with 2(1) Cons assms(3) show ?thesis by simp
    qed
  qed
qed

lemma starts_within_blocked:
  "t \<noteq> [] \<Longrightarrow> hd t \<notin> set n \<Longrightarrow> starts_within n g (t @ y) \<Longrightarrow> sublist n g"
proof (induction g)
  case Nil
  then show ?case by simp
next
  case (Cons c g)
  from Cons.prems(3) have "prefix n ((c # g) @ t @ y) \<or> starts_within n g (t @ y)" by simp
  then show ?case
  proof
    assume "prefix n ((c # g) @ t @ y)"
    from prefix_not_reaching [OF this Cons.prems(1,2)] show ?thesis
      by (rule prefix_imp_sublist)
  next
    assume "starts_within n g (t @ y)"
    with Cons.IH Cons.prems(1,2) have "sublist n g" by blast
    then show ?thesis by (simp add: sublist_Cons_right)
  qed
qed

lemma starts_within_inside:
  "g \<noteq> [] \<Longrightarrow> last g \<notin> set n \<Longrightarrow> starts_within n g y \<Longrightarrow> sublist n g"
proof (induction g)
  case Nil
  then show ?case by simp
next
  case (Cons c g)
  from Cons.prems(3) have "prefix n ((c # g) @ y) \<or> starts_within n g y" by simp
  then show ?case
  proof
    assume "prefix n ((c # g) @ y)"
    then have "prefix n (c # g) \<or> (\<exists>us. n = (c # g) @ us \<and> prefix us y)"
      by (simp only: prefix_append)
    then consider "prefix n (c # g)" | us where "n = (c # g) @ us"
      by blast
    then show ?thesis
    proof cases
      case 1
      then show ?thesis by (rule prefix_imp_sublist)
    next
      case 2
      then have "last (c # g) \<in> set n" by simp
      with Cons.prems(2) show ?thesis by simp
    qed
  next
    assume s: "starts_within n g y"
    then have "g \<noteq> []" by (cases g) auto
    with Cons.IH Cons.prems(2) s have "sublist n g" by simp
    then show ?thesis by (simp add: sublist_Cons_right)
  qed
qed

lemma starts_within_mono: "prefix n' n \<Longrightarrow> starts_within n g y \<Longrightarrow> starts_within n' g y"
  by (induction g) (auto intro: prefix_order.trans)

lemma starts_within_unbordered:
  assumes ub: "\<And>x us. n = x @ us \<Longrightarrow> prefix us n \<Longrightarrow> x \<noteq> [] \<Longrightarrow> us = []"
  shows "starts_within n g (n @ z) \<Longrightarrow> sublist n g"
proof (induction g)
  case Nil
  then show ?case by simp
next
  case (Cons c g)
  from Cons.prems have "prefix n ((c # g) @ n @ z) \<or> starts_within n g (n @ z)" by simp
  then show ?case
  proof
    assume "prefix n ((c # g) @ n @ z)"
    then have "prefix n (c # g) \<or> (\<exists>us. n = (c # g) @ us \<and> prefix us (n @ z))"
      by (simp only: prefix_append)
    then consider "prefix n (c # g)" | us where "n = (c # g) @ us" "prefix us (n @ z)"
      by blast
    then show ?thesis
    proof cases
      case 1
      then show ?thesis by (rule prefix_imp_sublist)
    next
      case 2
      from 2(1) have "length us \<le> length n" by (metis length_append le_add2)
      with 2(2) have "prefix us n"
        by (metis prefix_length_prefix prefixI)
      with ub [OF 2(1)] have "us = []" by simp
      with 2(1) show ?thesis by simp
    qed
  next
    assume "starts_within n g (n @ z)"
    with Cons.IH have "sublist n g" .
    then show ?thesis by (simp add: sublist_Cons_right)
  qed
qed

lemma core_free_head: "core_free q \<Longrightarrow> \<not> sublist token_head q"
proof
  assume "core_free q" "sublist token_head q"
  moreover have "sublist token_core token_head"
    unfolding token_head_core by (metis sublist_append_leftI)
  ultimately show False
    unfolding core_free_def using sublist_order.order_trans by blast
qed

lemma gap_before_token:
  assumes "core_free q"
  shows "\<not> starts_within (placeholder i) q (placeholder j @ y)"
proof
  assume "starts_within (placeholder i) q (placeholder j @ y)"
  moreover have "prefix token_head (placeholder i)" by (simp add: placeholder_head)
  ultimately have "starts_within token_head q (placeholder j @ y)"
    by (rule starts_within_mono [rotated])
  then have "starts_within token_head q
      (token_head @ (CHR ''_'' # str_of_nat j @ ''__'' @ y))"
    by (simp add: placeholder_head)
  then have "sublist token_head q"
    by (rule starts_within_unbordered [rotated]) (rule token_head_unbordered)
  with core_free_head [OF assms] show False ..
qed

lemma gap_before_other:
  assumes "core_free q" "y = [] \<or> hd y = CHR ''<''"
  shows "\<not> starts_within (placeholder i) q y"
proof
  assume s: "starts_within (placeholder i) q y"
  have "sublist (placeholder i) q"
  proof (cases "y = []")
    case True
    with s show ?thesis by (simp add: sublist_starts_within placeholder_not_Nil)
  next
    case False
    with assms(2) have "hd y \<notin> set (placeholder i)"
      by (simp add: placeholder_no_char token_alphabet_facts)
    from starts_within_blocked [OF False this, of q "[]"] s show ?thesis by simp
  qed
  with core_free_no_token [OF assms(1)] show False by blast
qed

lemma section_no_token:
  assumes "cdata_section m" "core_free m"
  shows "\<not> starts_within (placeholder i) m y"
proof
  assume s: "starts_within (placeholder i) m y"
  from assms(1) have "m \<noteq> []" and "last m = CHR ''>''"
    by (auto simp: cdata_section_iff cdata_close_def cdata_open_def)
  then have "last m \<notin> set (placeholder i)"
    by (simp add: placeholder_no_char token_alphabet_facts)
  from starts_within_inside [OF \<open>m \<noteq> []\<close> this s] core_free_no_token [OF assms(2)]
  show False by blast
qed

lemma digits_prefix:
  assumes "CHR ''_'' \<notin> set x" "CHR ''_'' \<notin> set y"
  shows "prefix (x @ CHR ''_'' # r) (y @ CHR ''_'' # r') \<Longrightarrow> x = y"
  using assms
proof (induction x arbitrary: y)
  case Nil
  then show ?case by (cases y) auto
next
  case (Cons a x)
  then show ?case by (cases y) auto
qed

lemma str_of_nat_no_underscore: "CHR ''_'' \<notin> set (str_of_nat n)"
  using str_of_nat_digits [of n] by auto

lemma token_at_token:
  assumes "prefix (placeholder i) (placeholder j @ y)"
  shows "i = j"
proof -
  from assms have "prefix (str_of_nat i @ CHR ''_'' # ''_'') (str_of_nat j @ CHR ''_'' # ''_'' @ y)"
    by (simp add: placeholder_def)
  then have "str_of_nat i = str_of_nat j"
    by (rule digits_prefix [OF str_of_nat_no_underscore str_of_nat_no_underscore])
  then show ?thesis by (rule str_of_nat_inj)
qed

lemma token_body_no_start:
  "d \<noteq> CHR ''_'' \<Longrightarrow> \<not> starts_within ''__C'' ''_CDATA_PLACEHOLDER_'' (d # z)"
  by auto

lemma token_inside_token:
  assumes "clear_start y"
  shows "\<not> starts_within (placeholder i) (tl (placeholder j)) y"
proof
  assume s: "starts_within (placeholder i) (tl (placeholder j)) y"
  obtain d ds where d: "str_of_nat j = d # ds"
    using str_of_nat_not_Nil [of j] by (cases "str_of_nat j") auto
  with str_of_nat_no_underscore [of j] have du: "d \<noteq> CHR ''_''" by auto
  have tl: "tl (placeholder j) = ''_CDATA_PLACEHOLDER_'' @ str_of_nat j @ ''__''"
    by (simp add: placeholder_def)
  from s consider
      (a) "starts_within (placeholder i) ''_CDATA_PLACEHOLDER_'' (str_of_nat j @ ''__'' @ y)"
    | (b) "starts_within (placeholder i) (str_of_nat j) (''__'' @ y)"
    | (c) "starts_within (placeholder i) ''__'' y"
    unfolding tl by (auto simp only: starts_within_append append_assoc)
  then show False
  proof cases
    case a
    have "prefix ''__C'' (placeholder i)" by (simp add: placeholder_def)
    from starts_within_mono [OF this a]
    have "starts_within ''__C'' ''_CDATA_PLACEHOLDER_'' (d # (ds @ ''__'' @ y))"
      by (simp only: d append_Cons)
    with token_body_no_start [OF du] show False by blast
  next
    case b
    from starts_within_hd [OF b placeholder_not_Nil]
    have "CHR ''_'' \<in> set (str_of_nat j)" by (simp add: placeholder_def)
    with str_of_nat_no_underscore show False by blast
  next
    case c
    have p: "placeholder i = ''__'' @ token_core @ (CHR ''_'' # str_of_nat i @ ''__'')"
      by (simp add: placeholder_def token_core_def)
    from c have "prefix (token_core @ (CHR ''_'' # str_of_nat i @ ''__'')) y
        \<or> prefix ((CHR ''_'' # token_core) @ (CHR ''_'' # str_of_nat i @ ''__'')) y"
      unfolding p by auto
    then have "prefix token_core y \<or> prefix (CHR ''_'' # token_core) y"
      using append_prefixD by blast
    with assms show False by (simp add: clear_start_def)
  qed
qed

lemma token_core_suffixes:
  "token_core = x @ us \<Longrightarrow> prefix us (CHR ''_'' # CHR ''_'' # z) \<Longrightarrow> us = []"
  unfolding token_core_def by (auto simp: Cons_eq_append_conv)

lemma token_core_suffixes':
  "CHR ''_'' # token_core = x @ us \<Longrightarrow> prefix us (CHR ''_'' # CHR ''_'' # z) \<Longrightarrow> us = []"
  unfolding token_core_def by (auto simp: Cons_eq_append_conv)

lemma core_free_clear: "core_free q \<Longrightarrow> clear_start q"
proof -
  assume c: "core_free q"
  have "\<not> prefix token_core q"
    using c unfolding core_free_def by (metis prefix_imp_sublist)
  moreover have "\<not> prefix (CHR ''_'' # token_core) q"
  proof
    assume "prefix (CHR ''_'' # token_core) q"
    then have "sublist ([CHR ''_''] @ token_core) q" by (simp add: prefix_imp_sublist)
    then have "sublist token_core q" by (metis sublist_append_leftI sublist_order.order_trans)
    with c show False by (simp add: core_free_def)
  qed
  ultimately show ?thesis by (simp add: clear_start_def)
qed

lemma gap_token_clear:
  assumes "core_free q"
  shows "clear_start (q @ placeholder j @ y)"
proof -
  have pj: "placeholder j @ y = CHR ''_'' # CHR ''_'' # (token_core @ CHR ''_'' # str_of_nat j @ ''__'' @ y)"
    by (simp add: placeholder_def token_core_def)
  from core_free_clear [OF assms] have q1: "\<not> prefix token_core q"
    and q2: "\<not> prefix (CHR ''_'' # token_core) q" by (simp_all add: clear_start_def)
  have "\<not> prefix token_core (q @ placeholder j @ y)"
  proof
    assume "prefix token_core (q @ placeholder j @ y)"
    then have "prefix token_core q \<or> (\<exists>us. token_core = q @ us \<and> prefix us (placeholder j @ y))"
      by (simp only: prefix_append)
    with q1 obtain us where u: "token_core = q @ us" "prefix us (placeholder j @ y)" by blast
    from token_core_suffixes [OF u(1)] u(2) have "us = []" by (simp only: pj)
    with u(1) q1 show False by simp
  qed
  moreover have "\<not> prefix (CHR ''_'' # token_core) (q @ placeholder j @ y)"
  proof
    assume "prefix (CHR ''_'' # token_core) (q @ placeholder j @ y)"
    then have "prefix (CHR ''_'' # token_core) q
        \<or> (\<exists>us. CHR ''_'' # token_core = q @ us \<and> prefix us (placeholder j @ y))"
      by (simp only: prefix_append)
    with q2 obtain us where u: "CHR ''_'' # token_core = q @ us" "prefix us (placeholder j @ y)"
      by blast
    from token_core_suffixes' [OF u(1)] u(2) have "us = []" by (simp only: pj)
    with u(1) q2 show False by simp
  qed
  ultimately show ?thesis by (simp add: clear_start_def)
qed

lemma count_occ_skip: "\<not> starts_within n g y \<Longrightarrow> count_occ n (g @ y) = count_occ n y"
  by (induction g) auto

lemma count_occ_zero: "count_occ n s = 0 \<longleftrightarrow> \<not> starts_within n s []"
  by (induction s) auto

lemma upt_Suc_left: "[j..<j + Suc k] = j # [Suc j..<Suc j + k]"
  by (simp add: upt_conv_Cons)

lemma count_occ_first:
  "s \<noteq> [] \<Longrightarrow> count_occ n (s @ y) = (if prefix n (s @ y) then 1 else 0) + count_occ n (tl s @ y)"
  by (cases s) simp_all

lemma token_weave_facts:
  "\<forall>q \<in> set qs. core_free q \<Longrightarrow> length qs = Suc k \<Longrightarrow>
     clear_start (weave qs (map placeholder [j..<j + k]))
     \<and> (\<forall>i. count_occ (placeholder i) (weave qs (map placeholder [j..<j + k]))
            = (if j \<le> i \<and> i < j + k then 1 else 0))"
proof (induction k arbitrary: qs j)
  case 0
  then obtain q where qs: "qs = [q]" by (cases qs) auto
  with 0 have cf: "core_free q" by simp
  have "count_occ (placeholder i) q = 0" for i
    using gap_before_other [OF cf, of "[]" i] by (simp add: count_occ_zero)
  with core_free_clear [OF cf] qs show ?case by simp
next
  case (Suc k)
  then obtain q qs' where qs: "qs = q # qs'" and len: "length qs' = Suc k"
    by (cases qs) auto
  with Suc.prems have cf: "core_free q" and cfs: "\<forall>q \<in> set qs'. core_free q" by simp_all
  define R where "R = weave qs' (map placeholder [Suc j..<Suc j + k])"
  from Suc.IH [OF cfs len, of "Suc j"] have cl: "clear_start R"
    and cnt: "\<And>i. count_occ (placeholder i) R = (if Suc j \<le> i \<and> i < Suc j + k then 1 else 0)"
    by (simp_all add: R_def)
  have w: "weave qs (map placeholder [j..<j + Suc k]) = q @ placeholder j @ R"
    by (simp only: qs upt_Suc_left list.map weave.simps R_def)
  have "count_occ (placeholder i) (q @ placeholder j @ R)
      = (if j \<le> i \<and> i < j + Suc k then 1 else 0)" for i
  proof -
    have "count_occ (placeholder i) (q @ placeholder j @ R)
        = count_occ (placeholder i) (placeholder j @ R)"
      by (rule count_occ_skip) (rule gap_before_token [OF cf])
    also have "count_occ (placeholder i) (placeholder j @ R)
        = (if prefix (placeholder i) (placeholder j @ R) then 1 else 0)
          + count_occ (placeholder i) (tl (placeholder j) @ R)"
      by (rule count_occ_first [OF placeholder_not_Nil])
    also have "count_occ (placeholder i) (tl (placeholder j) @ R) = count_occ (placeholder i) R"
      by (rule count_occ_skip) (rule token_inside_token [OF cl])
    also have "prefix (placeholder i) (placeholder j @ R) \<longleftrightarrow> i = j"
      using token_at_token [of i j R] by auto
    finally show ?thesis by (simp add: cnt)
  qed
  with gap_token_clear [OF cf, of j R] w show ?case by simp
qed

lemma token_weave_absent:
  assumes "\<forall>q \<in> set qs. core_free q" "length qs = Suc k" "i < j"
  shows "\<not> sublist (placeholder i) (weave qs (map placeholder [j..<j + k]))"
proof -
  from token_weave_facts [OF assms(1,2), of j] assms(3)
  have "count_occ (placeholder i) (weave qs (map placeholder [j..<j + k])) = 0" by simp
  then show ?thesis
    by (simp add: count_occ_zero sublist_starts_within placeholder_not_Nil)
qed

lemma restore_weave:
  "\<forall>q \<in> set qs. core_free q \<Longrightarrow> \<forall>m \<in> set ms. cdata_section m \<and> core_free m \<Longrightarrow>
   length qs = Suc (length ms) \<Longrightarrow> \<forall>j y. \<not> starts_within (placeholder j) a y \<Longrightarrow>
   restore_cdata (zip (map placeholder [i..<i + length ms]) ms)
       (a @ weave qs (map placeholder [i..<i + length ms]))
     = a @ weave qs ms"
proof (induction ms arbitrary: qs i a)
  case Nil
  then show ?case by simp
next
  case (Cons m ms)
  then obtain q qs' where qs: "qs = q # qs'" and len: "length qs' = Suc (length ms)"
    by (cases qs) auto
  with Cons.prems have cf: "core_free q" and cfs: "\<forall>q \<in> set qs'. core_free q"
    and sm: "cdata_section m" "core_free m"
    and sms: "\<forall>m \<in> set ms. cdata_section m \<and> core_free m" by simp_all
  define R where "R = weave qs' (map placeholder [Suc i..<Suc i + length ms])"
  have w: "weave qs (map placeholder [i..<i + length (m # ms)]) = q @ placeholder i @ R"
    by (simp only: qs length_Cons upt_Suc_left list.map weave.simps R_def)
  have z: "zip (map placeholder [i..<i + length (m # ms)]) (m # ms)
      = (placeholder i, m) # zip (map placeholder [Suc i..<Suc i + length ms]) ms"
    by (simp only: length_Cons upt_Suc_left list.map zip_Cons_Cons)
  have "\<not> starts_within (placeholder i) (a @ q) (placeholder i @ R)"
    using Cons.prems(4) gap_before_token [OF cf] by (simp add: starts_within_append)
  then have "replace (placeholder i) m ((a @ q) @ placeholder i @ R)
      = (a @ q) @ replace (placeholder i) m (placeholder i @ R)"
    by (rule replace_skip [OF placeholder_not_Nil])
  also have "replace (placeholder i) m (placeholder i @ R) = m @ replace (placeholder i) m R"
    by (rule replace_hit [OF placeholder_not_Nil])
  also have "replace (placeholder i) m R = R"
    unfolding R_def
    by (rule replace_none [OF placeholder_not_Nil]) (rule token_weave_absent [OF cfs len], simp)
  finally have r: "replace (placeholder i) m (a @ q @ placeholder i @ R) = (a @ q @ m) @ R"
    by simp
  have hm: "hd (m @ y) = CHR ''<''" for y
    using sm(1) by (auto simp: cdata_section_iff cdata_open_def)
  have inv: "\<forall>j y. \<not> starts_within (placeholder j) (a @ q @ m) y"
    using Cons.prems(4) gap_before_other [OF cf] hm section_no_token [OF sm]
    by (simp add: starts_within_append)
  from Cons.IH [OF cfs sms len inv, of "Suc i"]
  have "restore_cdata (zip (map placeholder [Suc i..<Suc i + length ms]) ms) ((a @ q @ m) @ R)
      = (a @ q @ m) @ weave qs' ms"
    by (simp only: R_def)
  with r show ?case by (simp only: w z restore_cdata.simps) (simp add: qs)
qed

lemma section_determined:
  assumes "cdata_section m" "cdata_section m'" "prefix m (m' @ w)"
  shows "m = m'"
proof -
  from assms(3) obtain z where e: "m' @ w = m @ z" by (auto simp: prefix_def)
  have "cdata_match (m' @ w) = Some (m', w)" by (rule cdata_match_section [OF assms(2)])
  moreover have "cdata_match (m' @ w) = Some (m, z)"
    unfolding e by (rule cdata_match_section [OF assms(1)])
  ultimately have "Some (m', w) = Some (m, z)" by (rule trans [OF sym])
  then show ?thesis by blast
qed

lemma section_open_prefix: "cdata_section m \<Longrightarrow> prefix cdata_open m"
  by (auto simp: cdata_section_iff)

lemma section_ends:
  assumes "cdata_section m"
  shows "tl m \<noteq> [] \<and> last (tl m) = CHR ''>''"
proof -
  from assms obtain body where m: "m = cdata_open @ body @ cdata_close"
    by (auto simp: cdata_section_iff)
  have "tl m = tl cdata_open @ body @ cdata_close"
    unfolding m by (simp add: cdata_open_def)
  then show ?thesis by (simp add: cdata_close_def)
qed

lemma section_not_Nil: "cdata_section m \<Longrightarrow> m \<noteq> []"
  by (auto simp: cdata_section_iff cdata_open_def)

lemma starts_within_first:
  "s \<noteq> [] \<Longrightarrow> starts_within n s y = (prefix n (s @ y) \<or> starts_within n (tl s) y)"
  by (cases s) simp_all

lemma gap_before_token_open:
  assumes "\<not> starts_within cdata_open g cdata_open"
  shows "\<not> starts_within cdata_open g (placeholder i @ y)"
proof
  assume s: "starts_within cdata_open g (placeholder i @ y)"
  have "hd (placeholder i) \<notin> set cdata_open" by (simp add: placeholder_def cdata_open_def)
  from starts_within_blocked [OF placeholder_not_Nil this s]
  have "sublist cdata_open g" .
  then have "starts_within cdata_open g cdata_open"
    by (rule starts_within_sublist [rotated]) (simp add: cdata_open_def)
  with assms show False ..
qed

lemma token_no_open: "\<not> starts_within cdata_open (placeholder i) y"
proof
  assume "starts_within cdata_open (placeholder i) y"
  then have "hd cdata_open \<in> set (placeholder i)"
    by (rule starts_within_hd) (simp add: cdata_open_def)
  then show False by (simp add: cdata_open_def placeholder_no_char token_alphabet_facts)
qed

section \<open>The extraction loop\<close>

text \<open>
  \<open>str.replace\<close> replaces every occurrence of the matched text, not only the match. The
  text of a section occurs a second time in the working text exactly when it is the end
  of a section that comes later (the same text again, or a section that holds another
  opening delimiter and ends with it). \<open>sections_apart\<close> says that this is not so.
\<close>

fun sections_apart :: "string list \<Rightarrow> bool" where
  "sections_apart [] = True"
| "sections_apart (m # ms) = (list_all (\<lambda>m'. \<not> suffix m m') ms \<and> sections_apart ms)"

lemma starts_within_iff:
  "starts_within n g y \<longleftrightarrow> (\<exists>x z. g = x @ z \<and> z \<noteq> [] \<and> prefix n (z @ y))"
proof (induction g)
  case Nil
  show ?case by simp
next
  case (Cons c g)
  show ?case
  proof
    assume "starts_within n (c # g) y"
    then have "prefix n ((c # g) @ y) \<or> starts_within n g y" by simp
    then show "\<exists>x z. c # g = x @ z \<and> z \<noteq> [] \<and> prefix n (z @ y)"
    proof
      assume "prefix n ((c # g) @ y)"
      then have "c # g = [] @ (c # g) \<and> c # g \<noteq> [] \<and> prefix n ((c # g) @ y)" by simp
      then show ?thesis by blast
    next
      assume "starts_within n g y"
      with Cons.IH obtain x z where "g = x @ z" "z \<noteq> []" "prefix n (z @ y)" by blast
      then have "c # g = (c # x) @ z \<and> z \<noteq> [] \<and> prefix n (z @ y)" by simp
      then show ?thesis by blast
    qed
  next
    assume "\<exists>x z. c # g = x @ z \<and> z \<noteq> [] \<and> prefix n (z @ y)"
    then obtain x z where e: "c # g = x @ z" and z: "z \<noteq> []" and p: "prefix n (z @ y)"
      by blast
    show "starts_within n (c # g) y"
    proof (cases x)
      case Nil
      with e have "z = c # g" by simp
      with p show ?thesis by simp
    next
      case (Cons a x')
      with e have "g = x' @ z" by simp
      with z p Cons.IH have "starts_within n g y" by blast
      then show ?thesis by simp
    qed
  qed
qed

lemma suffix_close_open:
  assumes "suffix cdata_close (cdata_open @ r)"
  shows "suffix cdata_close r"
proof -
  from assms have "suffix cdata_close r
      \<or> (\<exists>xs. cdata_close = xs @ r \<and> suffix xs cdata_open)"
    by (simp only: suffix_append)
  then show ?thesis
  proof
    assume "\<exists>xs. cdata_close = xs @ r \<and> suffix xs cdata_open"
    then obtain xs where c: "cdata_close = xs @ r" and s: "suffix xs cdata_open" by blast
    show ?thesis
    proof (cases "xs = []")
      case True
      with c show ?thesis by simp
    next
      case False
      from s obtain zs where zs: "cdata_open = zs @ xs" by (auto simp: suffix_def)
      have "last (zs @ xs) = last xs" using False by simp
      then have "last xs = last cdata_open" by (simp only: zs [symmetric])
      moreover have "last xs \<in> set (xs @ r)" using False by simp
      then have "last xs \<in> set cdata_close" by (simp only: c [symmetric])
      ultimately show ?thesis by (simp add: cdata_open_def cdata_close_def)
    qed
  qed
qed

text \<open>
  An occurrence of a section that begins inside another section, behind its first
  character, ends where that section ends.
\<close>

lemma section_inside_suffix:
  assumes sm: "cdata_section m" and sm': "cdata_section m'"
    and s: "starts_within m (tl m') w"
  shows "suffix m m'"
proof -
  from s [unfolded starts_within_iff]
  obtain x z where t: "tl m' = x @ z" and z: "z \<noteq> []" and p: "prefix m (z @ w)"
    by blast
  from sm' [unfolded cdata_section_iff]
  obtain body' where m': "m' = cdata_open @ body' @ cdata_close"
    and n': "\<not> starts_within cdata_close body' cdata_close"
    by blast
  define pre where "pre = hd m' # x"
  from section_not_Nil [OF sm'] t have mz: "m' = pre @ z"
    by (cases m') (simp_all add: pre_def)
  have pn: "pre \<noteq> []" by (simp add: pre_def)
  have "last (pre @ z) = last z" using z by simp
  then have "last z = last m'" by (simp only: mz [symmetric])
  also have "last m' = CHR ''>''" unfolding m' by (simp add: cdata_close_def)
  finally have lz: "last z = CHR ''>''" .
  from section_open_prefix [OF sm] p have "prefix cdata_open (z @ w)"
    by (rule prefix_order.trans)
  then have "prefix cdata_open z \<or> (\<exists>us. cdata_open = z @ us \<and> prefix us w)"
    by (simp only: prefix_append)
  then have "prefix cdata_open z"
  proof
    assume "\<exists>us. cdata_open = z @ us \<and> prefix us w"
    then obtain us where u: "cdata_open = z @ us" by blast
    have "last z \<in> set (z @ us)" using z by simp
    then have "last z \<in> set cdata_open" by (simp only: u [symmetric])
    with lz show ?thesis by (simp add: cdata_open_def)
  qed
  then obtain r where zr: "z = cdata_open @ r" by (auto simp: prefix_def)
  have "m' = (cdata_open @ body') @ cdata_close" by (simp add: m')
  then have s1: "suffix cdata_close m'" by (rule suffixI)
  have "m' = pre @ (cdata_open @ r)" by (simp only: mz zr)
  then have s2: "suffix (cdata_open @ r) m'" by (rule suffixI)
  have "length cdata_close \<le> length (cdata_open @ r)"
    by (simp add: cdata_open_def cdata_close_def)
  with s1 s2 have "suffix cdata_close (cdata_open @ r)" by (rule suffix_length_suffix)
  then have "suffix cdata_close r" by (rule suffix_close_open)
  then obtain r0 where r: "r = r0 @ cdata_close" by (auto simp: suffix_def)
  have "(cdata_open @ body') @ cdata_close = ((pre @ cdata_open) @ r0) @ cdata_close"
    using m' mz by (simp add: zr r)
  then have e: "cdata_open @ body' = (pre @ cdata_open) @ r0" by (simp only: append_same_eq)
  then have "suffix r0 (cdata_open @ body')" by (rule suffixI)
  then have "suffix r0 body' \<or> (\<exists>xs. r0 = xs @ body' \<and> suffix xs cdata_open)"
    by (simp only: suffix_append)
  then have "suffix r0 body'"
  proof
    assume "\<exists>xs. r0 = xs @ body' \<and> suffix xs cdata_open"
    then obtain xs where "r0 = xs @ body'" by blast
    then have "length r0 = length xs + length body'" by simp
    moreover from e have "length (cdata_open @ body') = length ((pre @ cdata_open) @ r0)"
      by (rule arg_cong)
    then have "length body' = length pre + length r0" by simp
    ultimately have "length pre = 0" by simp
    with pn show ?thesis by simp
  qed
  then obtain b1 where "body' = b1 @ r0" by (auto simp: suffix_def)
  with n' have "\<not> starts_within cdata_close r0 cdata_close"
    by (simp add: starts_within_append)
  moreover have "z = cdata_open @ r0 @ cdata_close" by (simp only: zr r)
  ultimately have "cdata_section z" unfolding cdata_section_iff by blast
  from section_determined [OF sm this p] have "m = z" .
  with mz show ?thesis by (simp add: suffix_def)
qed

lemma no_section_occurrence:
  "gaps_ok gs ms \<Longrightarrow> cdata_section m \<Longrightarrow> \<forall>m' \<in> set ms. \<not> suffix m m' \<Longrightarrow>
   \<not> sublist m (weave gs ms)"
proof (induction gs ms rule: gaps_ok.induct)
  case (1 g)
  then have "cdata_search g = None" by simp
  with "1.prems"(2) have "\<forall>a b. g \<noteq> a @ m @ b" by (simp only: cdata_search_None) blast
  then have "\<not> sublist m g" unfolding sublist_def by blast
  then show ?case by simp
next
  case (2 g gs m' ms)
  then have g: "\<not> starts_within cdata_open g cdata_open" and sm': "cdata_section m'"
    and ok: "gaps_ok gs ms" and ne: "\<not> suffix m m'" and nin: "\<forall>m' \<in> set ms. \<not> suffix m m'"
    by simp_all
  define W where "W = weave gs ms"
  from "2.IH" [OF ok "2.prems"(2) nin] have ih: "\<not> sublist m W" by (simp add: W_def)
  note po = section_open_prefix [OF "2.prems"(2)]
  have a: "\<not> starts_within m g (m' @ W)"
  proof
    assume "starts_within m g (m' @ W)"
    from starts_within_mono [OF po this] g show False
      by (simp add: starts_within_open_cong [OF cdata_section_prefix [OF sm']])
  qed
  have b: "\<not> starts_within m m' W"
  proof
    assume s: "starts_within m m' W"
    from s have "prefix m (m' @ W) \<or> starts_within m (tl m') W"
      by (simp only: starts_within_first [OF section_not_Nil [OF sm']])
    then show False
    proof
      assume "prefix m (m' @ W)"
      from section_determined [OF "2.prems"(2) sm' this] ne show False by simp
    next
      assume "starts_within m (tl m') W"
      from section_inside_suffix [OF "2.prems"(2) sm' this] ne show False by blast
    qed
  qed
  note nm = section_not_Nil [OF "2.prems"(2)]
  have "sublist m (g @ m' @ W) \<longleftrightarrow> starts_within m (g @ m' @ W) []"
    by (rule sublist_starts_within [OF nm])
  also have "\<dots> \<longleftrightarrow> starts_within m g (m' @ W) \<or> starts_within m m' W
      \<or> starts_within m W []"
    by (simp only: starts_within_append append_Nil2)
  also have "starts_within m W [] \<longleftrightarrow> sublist m W"
    by (rule sublist_starts_within [OF nm, symmetric])
  finally have "\<not> sublist m (g @ m' @ W)" using a b ih by blast
  then show ?case by (simp add: W_def)
qed simp_all

lemma extract_loop_weave:
  "gaps_ok gs ms \<Longrightarrow> sections_apart ms \<Longrightarrow> \<forall>y. \<not> starts_within cdata_open a y \<Longrightarrow>
   extract_loop i ms (a @ weave gs ms) secs
     = (a @ weave gs (map placeholder [i..<i + length ms]),
        secs @ zip (map placeholder [i..<i + length ms]) ms)"
proof (induction gs ms arbitrary: i a secs rule: gaps_ok.induct)
  case (1 g)
  then show ?case by simp
next
  case (2 g gs m ms)
  then have g: "\<not> starts_within cdata_open g cdata_open" and sm: "cdata_section m"
    and ok: "gaps_ok gs ms" and nin: "\<forall>m' \<in> set ms. \<not> suffix m m'"
    and ap: "sections_apart ms"
    by (simp_all add: list_all_iff)
  define W where "W = weave gs ms"
  note ne = section_not_Nil [OF sm]
  note po = section_open_prefix [OF sm]
  have "\<not> starts_within cdata_open (a @ g) (m @ W)"
    using "2.prems"(3) g
    by (simp add: starts_within_append starts_within_open_cong [OF cdata_section_prefix [OF sm]])
  then have "\<not> starts_within m (a @ g) (m @ W)"
    using starts_within_mono [OF po] by blast
  then have "replace m (placeholder i) ((a @ g) @ m @ W)
      = (a @ g) @ replace m (placeholder i) (m @ W)"
    by (rule replace_skip [OF ne])
  also have "replace m (placeholder i) (m @ W) = placeholder i @ replace m (placeholder i) W"
    by (rule replace_hit [OF ne])
  also have "replace m (placeholder i) W = W"
    unfolding W_def
    by (rule replace_none [OF ne]) (rule no_section_occurrence [OF ok sm nin])
  finally have r: "replace m (placeholder i) (a @ g @ m @ W) = (a @ g @ placeholder i) @ W"
    by simp
  have inv: "\<forall>y. \<not> starts_within cdata_open (a @ g @ placeholder i) y"
    using "2.prems"(3) gap_before_token_open [OF g] token_no_open
    by (simp add: starts_within_append)
  define toks where "toks = map placeholder [Suc i..<Suc i + length ms]"
  have e2: "map placeholder [i..<i + length (m # ms)] = placeholder i # toks"
    by (simp only: length_Cons upt_Suc_left list.map toks_def)
  from "2.IH" [OF ok ap inv, of "Suc i" "secs @ [(placeholder i, m)]"]
  have ih: "extract_loop (Suc i) ms ((a @ g @ placeholder i) @ W) (secs @ [(placeholder i, m)])
      = ((a @ g @ placeholder i) @ weave gs toks,
         (secs @ [(placeholder i, m)]) @ zip toks ms)"
    by (simp only: W_def toks_def)
  have "extract_loop i (m # ms) (a @ weave (g # gs) (m # ms)) secs
      = extract_loop (Suc i) ms (replace m (placeholder i) (a @ g @ m @ W))
          (secs @ [(placeholder i, m)])"
    by (simp only: extract_loop.simps weave.simps W_def)
  also have "\<dots> = ((a @ g @ placeholder i) @ weave gs toks,
         (secs @ [(placeholder i, m)]) @ zip toks ms)"
    by (simp only: r ih)
  also have "\<dots> = (a @ weave (g # gs) (placeholder i # toks),
         secs @ zip (placeholder i # toks) (m # ms))"
    by simp
  finally show ?case by (simp only: e2)
qed simp_all

section \<open>The restoration loop\<close>

lemma count_occ_append_le: "count_occ n y \<le> count_occ n (g @ y)"
  by (induction g) auto

lemma count_occ_starts: "starts_within n g y \<Longrightarrow> count_occ n y < count_occ n (g @ y)"
proof (induction g)
  case Nil
  then show ?case by simp
next
  case (Cons c g)
  from Cons.prems have "prefix n ((c # g) @ y) \<or> starts_within n g y" by simp
  then show ?case
  proof
    assume "prefix n ((c # g) @ y)"
    with count_occ_append_le [of n y g] show ?thesis by simp
  next
    assume "starts_within n g y"
    with Cons.IH show ?thesis by simp
  qed
qed

lemma count_occ_hit: "n \<noteq> [] \<Longrightarrow> Suc (count_occ n y) \<le> count_occ n (n @ y)"
proof -
  assume n: "n \<noteq> []"
  have "count_occ n (n @ y) = Suc (count_occ n (tl n @ y))"
    using count_occ_first [OF n, of n y] by simp
  with count_occ_append_le [of n y "tl n"] show ?thesis by simp
qed

lemma section_last: "cdata_section m \<Longrightarrow> m \<noteq> [] \<and> last m = CHR ''>''"
proof -
  assume s: "cdata_section m"
  from section_ends [OF s] section_not_Nil [OF s] show ?thesis by (cases m) auto
qed

lemma section_hd: "cdata_section m \<Longrightarrow> hd (m @ y) = CHR ''<''"
  by (auto simp: cdata_section_iff cdata_open_def)

text \<open>
  When no token occurs in the document and each token occurs once in the working text,
  the loop puts every section back at the place of its token.
\<close>

lemma restore_exact:
  "length gs = Suc (length ms) \<Longrightarrow> \<forall>m \<in> set ms. cdata_section m \<Longrightarrow>
   \<forall>i < length ms. count_occ (placeholder (k + i))
       (weave gs (map placeholder [k..<k + length ms])) \<le> 1 \<Longrightarrow>
   \<forall>i < length ms. \<not> sublist (placeholder (k + i)) (a @ weave gs ms) \<Longrightarrow>
   a = [] \<or> last a = CHR ''>'' \<Longrightarrow>
   restore_cdata (zip (map placeholder [k..<k + length ms]) ms)
       (a @ weave gs (map placeholder [k..<k + length ms]))
     = a @ weave gs ms"
proof (induction ms arbitrary: gs k a)
  case Nil
  then show ?case by simp
next
  case (Cons m ms)
  then obtain g gs' where gs: "gs = g # gs'" and len: "length gs' = Suc (length ms)"
    by (cases gs) auto
  from Cons.prems(2) have sm: "cdata_section m" and sms: "\<forall>m \<in> set ms. cdata_section m"
    by simp_all
  define R where "R = weave gs' (map placeholder [Suc k..<Suc k + length ms])"
  have w: "weave gs (map placeholder [k..<k + length (m # ms)]) = g @ placeholder k @ R"
    by (simp only: gs length_Cons upt_Suc_left list.map weave.simps R_def)
  have z: "zip (map placeholder [k..<k + length (m # ms)]) (m # ms)
      = (placeholder k, m) # zip (map placeholder [Suc k..<Suc k + length ms]) ms"
    by (simp only: length_Cons upt_Suc_left list.map zip_Cons_Cons)
  have cnt: "count_occ (placeholder (k + i)) (g @ placeholder k @ R) \<le> 1"
    if "i < Suc (length ms)" for i
    using Cons.prems(3) that by (simp only: w [symmetric] length_Cons)
  have doc: "\<not> sublist (placeholder (k + i)) (a @ g @ m @ weave gs' ms)"
    if "i < Suc (length ms)" for i
    using Cons.prems(4) that by (simp add: gs)
  from cnt [of 0] have c0: "count_occ (placeholder k) (g @ placeholder k @ R) \<le> 1" by simp
  have hit: "Suc (count_occ (placeholder k) R) \<le> count_occ (placeholder k) (placeholder k @ R)"
    by (rule count_occ_hit [OF placeholder_not_Nil])
  have g1: "\<not> starts_within (placeholder k) g (placeholder k @ R)"
  proof
    assume "starts_within (placeholder k) g (placeholder k @ R)"
    from count_occ_starts [OF this] hit c0 show False by simp
  qed
  have "count_occ (placeholder k) R = 0"
    using count_occ_append_le [of "placeholder k" "placeholder k @ R" g] hit c0 by simp
  then have r0: "\<not> sublist (placeholder k) R"
    by (simp add: count_occ_zero sublist_starts_within placeholder_not_Nil)
  have a1: "\<not> starts_within (placeholder k) a (g @ placeholder k @ R)"
  proof
    assume s: "starts_within (placeholder k) a (g @ placeholder k @ R)"
    then have ne: "a \<noteq> []" by (cases a) auto
    with Cons.prems(5) have "last a \<notin> set (placeholder k)"
      by (simp add: placeholder_no_char token_alphabet_facts)
    from starts_within_inside [OF ne this s] have "sublist (placeholder k) a" .
    then have "sublist (placeholder k) (a @ g @ m @ weave gs' ms)"
      by (metis sublist_append_rightI sublist_order.order_trans)
    with doc [of 0] show False by simp
  qed
  from a1 g1 have "\<not> starts_within (placeholder k) (a @ g) (placeholder k @ R)"
    by (simp add: starts_within_append)
  then have "replace (placeholder k) m ((a @ g) @ placeholder k @ R)
      = (a @ g) @ replace (placeholder k) m (placeholder k @ R)"
    by (rule replace_skip [OF placeholder_not_Nil])
  also have "replace (placeholder k) m (placeholder k @ R) = m @ replace (placeholder k) m R"
    by (rule replace_hit [OF placeholder_not_Nil])
  also have "replace (placeholder k) m R = R"
    by (rule replace_none [OF placeholder_not_Nil r0])
  finally have r: "replace (placeholder k) m (a @ g @ placeholder k @ R) = (a @ g @ m) @ R"
    by simp
  have c': "\<forall>i < length ms. count_occ (placeholder (Suc k + i))
       (weave gs' (map placeholder [Suc k..<Suc k + length ms])) \<le> 1"
  proof (intro allI impI)
    fix i assume "i < length ms"
    then have "count_occ (placeholder (k + Suc i)) ((g @ placeholder k) @ R) \<le> 1"
      using cnt [of "Suc i"] by simp
    with count_occ_append_le [of "placeholder (k + Suc i)" R "g @ placeholder k"]
    show "count_occ (placeholder (Suc k + i))
       (weave gs' (map placeholder [Suc k..<Suc k + length ms])) \<le> 1"
      by (simp add: R_def)
  qed
  have d': "\<forall>i < length ms. \<not> sublist (placeholder (Suc k + i)) ((a @ g @ m) @ weave gs' ms)"
    using doc by (metis Suc_less_eq add_Suc add_Suc_right append_assoc)
  have l': "a @ g @ m = [] \<or> last (a @ g @ m) = CHR ''>''"
    using section_last [OF sm] by simp
  from Cons.IH [OF len sms c' d' l']
  have "restore_cdata (zip (map placeholder [Suc k..<Suc k + length ms]) ms) ((a @ g @ m) @ R)
      = (a @ g @ m) @ weave gs' ms"
    by (simp only: R_def)
  with r show ?case by (simp only: w z restore_cdata.simps) (simp add: gs)
qed

text \<open>
  In a text made of gaps without the text \<verbatim>\<open>CDATA_PLACEHOLDER\<close> and of items that are
  tokens or sections, in any order, a token occurs exactly where it is an item.
\<close>

lemma placeholder_inj: "placeholder i = placeholder j \<Longrightarrow> i = j"
  using token_at_token [of i j "[]"] by simp

lemma gap_section_clear:
  assumes "core_free q" "cdata_section x"
  shows "clear_start (q @ x @ y)"
proof -
  from section_not_Nil [OF assms(2)] section_hd [OF assms(2), of "[]"]
  have x: "x \<noteq> []" "hd x = CHR ''<''" by simp_all
  from core_free_clear [OF assms(1)] have q1: "\<not> prefix token_core q"
    and q2: "\<not> prefix (CHR ''_'' # token_core) q" by (simp_all add: clear_start_def)
  have "\<not> prefix token_core (q @ x @ y)"
  proof
    assume "prefix token_core (q @ x @ y)"
    from prefix_not_reaching [OF this x(1)] x(2) q1 show False
      by (simp add: token_core_def)
  qed
  moreover have "\<not> prefix (CHR ''_'' # token_core) (q @ x @ y)"
  proof
    assume "prefix (CHR ''_'' # token_core) (q @ x @ y)"
    from prefix_not_reaching [OF this x(1)] x(2) q2 show False
      by (simp add: token_core_def)
  qed
  ultimately show ?thesis by (simp add: clear_start_def)
qed

lemma replace_token_weave:
  "\<forall>q \<in> set qs. core_free q \<Longrightarrow> length qs = Suc (length xs) \<Longrightarrow>
   \<forall>x \<in> set xs. (\<exists>j. x = placeholder j) \<or> (cdata_section x \<and> core_free x) \<Longrightarrow>
   clear_start (weave qs xs)
   \<and> replace (placeholder k) m (weave qs xs)
       = weave qs (map (\<lambda>x. if x = placeholder k then m else x) xs)"
proof (induction xs arbitrary: qs)
  case Nil
  then obtain q where qs: "qs = [q]" by (cases qs) auto
  with Nil have cf: "core_free q" by simp
  have "replace (placeholder k) m q = q"
    by (rule replace_none [OF placeholder_not_Nil core_free_no_token [OF cf]])
  with core_free_clear [OF cf] qs show ?case by simp
next
  case (Cons x xs)
  then obtain q qs' where qs: "qs = q # qs'" and len: "length qs' = Suc (length xs)"
    by (cases qs) auto
  with Cons.prems have cf: "core_free q" and cfs: "\<forall>q \<in> set qs'. core_free q"
    and x: "(\<exists>j. x = placeholder j) \<or> (cdata_section x \<and> core_free x)"
    and xs: "\<forall>x \<in> set xs. (\<exists>j. x = placeholder j) \<or> (cdata_section x \<and> core_free x)"
    by simp_all
  define R where "R = weave qs' xs"
  define f where "f = (\<lambda>x. if x = placeholder k then m else x)"
  from Cons.IH [OF cfs len xs] have cl: "clear_start R"
    and ih: "replace (placeholder k) m R = weave qs' (map f xs)"
    by (simp_all add: R_def f_def)
  have w: "weave qs (x # xs) = q @ x @ R" by (simp add: qs R_def)
  have fin: "weave qs (map f (x # xs)) = q @ f x @ weave qs' (map f xs)" by (simp add: qs)
  from x show ?case
  proof
    assume "\<exists>j. x = placeholder j"
    then obtain j where xj: "x = placeholder j" by blast
    have gq: "\<not> starts_within (placeholder k) q (placeholder j @ R)"
      by (rule gap_before_token [OF cf])
    have c: "clear_start (q @ x @ R)" unfolding xj by (rule gap_token_clear [OF cf])
    show ?thesis
    proof (cases "j = k")
      case True
      from gq have "replace (placeholder k) m (q @ placeholder k @ R)
          = q @ replace (placeholder k) m (placeholder k @ R)"
        unfolding True by (rule replace_skip [OF placeholder_not_Nil])
      also have "replace (placeholder k) m (placeholder k @ R)
          = m @ replace (placeholder k) m R"
        by (rule replace_hit [OF placeholder_not_Nil])
      finally have "replace (placeholder k) m (q @ x @ R) = q @ m @ weave qs' (map f xs)"
        by (simp add: xj True ih)
      moreover have "f x = m" by (simp add: f_def xj True)
      ultimately have "replace (placeholder k) m (q @ x @ R) = q @ f x @ weave qs' (map f xs)"
        by simp
      with c show ?thesis by (simp only: f_def [symmetric] w fin simp_thms)
    next
      case False
      have "\<not> prefix (placeholder k) (placeholder j @ R)"
        using token_at_token [of k j R] False by blast
      moreover have "\<not> starts_within (placeholder k) (tl (placeholder j)) R"
        by (rule token_inside_token [OF cl])
      ultimately have "\<not> starts_within (placeholder k) (placeholder j) R"
        by (simp only: starts_within_first [OF placeholder_not_Nil]) blast
      with gq have "\<not> starts_within (placeholder k) (q @ placeholder j) R"
        by (simp add: starts_within_append)
      then have "replace (placeholder k) m ((q @ placeholder j) @ R)
          = (q @ placeholder j) @ replace (placeholder k) m R"
        by (rule replace_skip [OF placeholder_not_Nil])
      then have "replace (placeholder k) m (q @ x @ R) = q @ x @ weave qs' (map f xs)"
        by (simp add: xj ih)
      moreover have "f x = x" using False placeholder_inj [of j k] by (auto simp: f_def xj)
      ultimately have "replace (placeholder k) m (q @ x @ R) = q @ f x @ weave qs' (map f xs)"
        by simp
      with c show ?thesis by (simp only: f_def [symmetric] w fin simp_thms)
    qed
  next
    assume sx: "cdata_section x \<and> core_free x"
    then have sec: "cdata_section x" and cfx: "core_free x" by simp_all
    have c: "clear_start (q @ x @ R)" by (rule gap_section_clear [OF cf sec])
    have "\<not> starts_within (placeholder k) q (x @ R)"
      by (rule gap_before_other [OF cf]) (simp add: section_hd [OF sec])
    moreover have "\<not> starts_within (placeholder k) x R"
      by (rule section_no_token [OF sec cfx])
    ultimately have "\<not> starts_within (placeholder k) (q @ x) R"
      by (simp add: starts_within_append)
    then have "replace (placeholder k) m ((q @ x) @ R) = (q @ x) @ replace (placeholder k) m R"
      by (rule replace_skip [OF placeholder_not_Nil])
    then have "replace (placeholder k) m (q @ x @ R) = q @ x @ weave qs' (map f xs)"
      by (simp add: ih)
    moreover have "f x = x"
    proof -
      from section_hd [OF sec, of "[]"] have "hd x = CHR ''<''" by simp
      moreover have "hd (placeholder k) = CHR ''_''" by (simp add: placeholder_def)
      ultimately have "x \<noteq> placeholder k" by auto
      then show ?thesis by (simp add: f_def)
    qed
    ultimately have "replace (placeholder k) m (q @ x @ R) = q @ f x @ weave qs' (map f xs)"
      by simp
    with c show ?thesis by (simp only: f_def [symmetric] w fin simp_thms)
  qed
qed

lemma restore_fill:
  assumes cfq: "\<forall>q \<in> set qs. core_free q" and len: "length qs = Suc (length js)"
    and js: "\<forall>j \<in> set js. j < length ms"
    and sec: "\<forall>m \<in> set ms. cdata_section m \<and> core_free m"
  shows "k \<le> length ms \<Longrightarrow>
    restore_cdata (zip (map placeholder [k..<length ms]) (drop k ms))
        (weave qs (map (\<lambda>j. if j < k then ms ! j else placeholder j) js))
      = weave qs (map (\<lambda>j. ms ! j) js)"
proof (induction "length ms - k" arbitrary: k)
  case 0
  then have k: "k = length ms" by simp
  have e: "map (\<lambda>j. if j < length ms then ms ! j else placeholder j) js = map (\<lambda>j. ms ! j) js"
    by (rule map_cong) (use js in auto)
  show ?case unfolding k by (simp add: e)
next
  case (Suc d)
  then have k: "k < length ms" by simp
  define xs where "xs = map (\<lambda>j. if j < k then ms ! j else placeholder j) js"
  have item: "\<forall>x \<in> set xs. (\<exists>j. x = placeholder j) \<or> (cdata_section x \<and> core_free x)"
    using js sec by (auto simp: xs_def)
  have lx: "length qs = Suc (length xs)" using len by (simp add: xs_def)
  from replace_token_weave [OF cfq lx item, of k "ms ! k"]
  have r: "replace (placeholder k) (ms ! k) (weave qs xs)
      = weave qs (map (\<lambda>x. if x = placeholder k then ms ! k else x) xs)"
    by simp
  have "(if (if j < k then ms ! j else placeholder j) = placeholder k then ms ! k
         else (if j < k then ms ! j else placeholder j))
      = (if j < Suc k then ms ! j else placeholder j)" if "j \<in> set js" for j
  proof (cases "j < k")
    case True
    with that js k have s: "cdata_section (ms ! j)" using sec by simp
    from section_hd [OF s, of "[]"] have "hd (ms ! j) = CHR ''<''" by simp
    moreover have "hd (placeholder k) = CHR ''_''" by (simp add: placeholder_def)
    ultimately have "ms ! j \<noteq> placeholder k" by auto
    with True show ?thesis by simp
  next
    case False
    then show ?thesis using placeholder_inj [of j k] by (auto simp: less_Suc_eq)
  qed
  then have m: "map (\<lambda>x. if x = placeholder k then ms ! k else x) xs
      = map (\<lambda>j. if j < Suc k then ms ! j else placeholder j) js"
    by (simp add: xs_def)
  have u: "[k..<length ms] = k # [Suc k..<length ms]" using k by (simp add: upt_conv_Cons)
  have dr: "drop k ms = ms ! k # drop (Suc k) ms" using k by (simp add: Cons_nth_drop_Suc)
  from Suc.hyps(2) have "d = length ms - Suc k" by simp
  from Suc.hyps(1) [OF this] k
  have "restore_cdata (zip (map placeholder [Suc k..<length ms]) (drop (Suc k) ms))
        (weave qs (map (\<lambda>j. if j < Suc k then ms ! j else placeholder j) js))
      = weave qs (map (\<lambda>j. ms ! j) js)"
    by simp
  then show ?case by (simp add: u dr xs_def [symmetric] r m)
qed

lemma restore_any_order:
  assumes "\<forall>q \<in> set qs. core_free q" and "length qs = Suc (length js)"
    and "\<forall>j \<in> set js. j < length ms"
    and "\<forall>m \<in> set ms. cdata_section m \<and> core_free m"
  shows "restore_cdata (zip (map placeholder [0..<length ms]) ms)
        (weave qs (map placeholder js))
      = weave qs (map (\<lambda>j. ms ! j) js)"
  using restore_fill [OF assms, of 0] by simp

section \<open>The tokens of a document\<close>

lemma weave_parts:
  "gaps_ok gs ms \<Longrightarrow> (\<forall>g \<in> set gs. sublist g (weave gs ms)) \<and> (\<forall>m \<in> set ms. sublist m (weave gs ms))"
proof (induction gs ms rule: gaps_ok.induct)
  case (1 g)
  then show ?case by simp
next
  case (2 g gs m ms)
  then have ih: "\<forall>x \<in> set gs \<union> set ms. sublist x (weave gs ms)" by auto
  have "sublist x (g @ m @ weave gs ms)" if "sublist x (weave gs ms)" for x
  proof -
    have "sublist (weave gs ms) ((g @ m) @ weave gs ms)" by (rule sublist_append_leftI)
    with that show ?thesis by (metis sublist_order.order_trans append_assoc)
  qed
  moreover have "sublist g (g @ m @ weave gs ms)" by (rule sublist_append_rightI)
  moreover have "sublist m (g @ m @ weave gs ms)" by (rule sublist_appendI)
  ultimately show ?case using ih by auto
qed simp_all

lemma placeholder_0: "placeholder 0 = ''__CDATA_PLACEHOLDER_0__''"
  by (simp add: placeholder_def str_of_nat.simps digit_def)

lemma placeholder_1: "placeholder (Suc 0) = ''__CDATA_PLACEHOLDER_1__''"
  by (simp add: placeholder_def str_of_nat.simps digit_def)

text \<open>
  C3, amended. Let no section of the document be the end of a later section. Then the
  extraction loop turns the document into its gaps woven with the tokens \<open>0, \<dots>, n - 1\<close>
  in this order and pairs the token of index \<open>i\<close> with the \<open>i\<close>-th section. When no
  token occurs in the document and every token occurs exactly once in the working text,
  the restoration loop turns the working text back into the document. Both conditions
  hold when the document does not contain the text \<^verbatim>\<open>CDATA_PLACEHOLDER\<close>; then the
  restoration loop also turns any text made of tokens of the document, in any order and
  number, between gaps without that text, into the same gaps with the \<open>j\<close>-th section at
  every place of the token of index \<open>j\<close>.
\<close>

theorem placeholder_tokens:
  assumes ap: "sections_apart (cdata_finditer doc)"
  shows "let ms = cdata_finditer doc; n = length ms; toks = map placeholder [0..<n];
             working = weave (cdata_gaps doc) toks
         in extract_cdata doc = (working, zip toks ms)
          \<and> ((\<forall>i < n. count_occ (placeholder i) doc = 0
                  \<and> count_occ (placeholder i) working = 1)
               \<longrightarrow> restore_cdata (zip toks ms) working = doc)
          \<and> (core_free doc \<longrightarrow>
               (\<forall>i < n. count_occ (placeholder i) doc = 0
                  \<and> count_occ (placeholder i) working = 1)
               \<and> (\<forall>qs js. length qs = Suc (length js) \<and> (\<forall>j \<in> set js. j < n)
                      \<and> (\<forall>q \<in> set qs. core_free q)
                    \<longrightarrow> restore_cdata (zip toks ms) (weave qs (map placeholder js))
                        = weave qs (map (\<lambda>j. ms ! j) js)))"
proof -
  define ms where "ms = cdata_finditer doc"
  define gs where "gs = cdata_gaps doc"
  define toks where "toks = map placeholder [0..<length ms]"
  have toks': "toks = map placeholder [0..<0 + length ms]" by (simp add: toks_def)
  from cdata_scan [of doc] have ok: "gaps_ok gs ms" and w: "weave gs ms = doc"
    by (simp_all add: ms_def gs_def)
  have secs: "\<forall>m \<in> set ms. cdata_section m" using gaps_ok_sections [OF ok] by blast
  note len = gaps_ok_length [OF ok]
  have inv: "\<forall>y. \<not> starts_within cdata_open [] y" by simp
  from extract_loop_weave [OF ok ap [folded ms_def] inv, of 0 "[]"]
  have e: "extract_cdata doc = (weave gs toks, zip toks ms)"
    by (simp add: extract_cdata_def ms_def [symmetric] w toks_def)
  have r1: "restore_cdata (zip toks ms) (weave gs toks) = doc"
    if c: "\<forall>i < length ms. count_occ (placeholder i) doc = 0
                  \<and> count_occ (placeholder i) (weave gs toks) = 1"
  proof -
    have a: "\<forall>i < length ms. count_occ (placeholder (0 + i))
        (weave gs (map placeholder [0..<0 + length ms])) \<le> 1"
      using c by (simp add: toks_def)
    have b: "\<forall>i < length ms. \<not> sublist (placeholder (0 + i)) ([] @ weave gs ms)"
      using c by (simp add: w count_occ_zero sublist_starts_within placeholder_not_Nil)
    from restore_exact [OF len secs a b] show ?thesis by (simp add: toks_def w)
  qed
  have r2: "(\<forall>i < length ms. count_occ (placeholder i) doc = 0
                  \<and> count_occ (placeholder i) (weave gs toks) = 1)
      \<and> (\<forall>qs js. length qs = Suc (length js) \<and> (\<forall>j \<in> set js. j < length ms)
                      \<and> (\<forall>q \<in> set qs. core_free q)
                    \<longrightarrow> restore_cdata (zip toks ms) (weave qs (map placeholder js))
                        = weave qs (map (\<lambda>j. ms ! j) js))"
    if cf: "core_free doc"
  proof -
    from weave_parts [OF ok] w cf have cfg: "\<forall>g \<in> set gs. core_free g"
      and cfm: "\<forall>m \<in> set ms. core_free m"
      using core_free_sublist by blast+
    have c0: "count_occ (placeholder i) doc = 0" for i
      using core_free_no_token [OF cf, of i]
      by (simp add: count_occ_zero sublist_starts_within [symmetric] placeholder_not_Nil)
    from token_weave_facts [OF cfg len, of 0]
    have c1: "\<forall>i < length ms. count_occ (placeholder i) (weave gs toks) = 1"
      by (simp add: toks_def)
    have sc: "\<forall>m \<in> set ms. cdata_section m \<and> core_free m" using secs cfm by blast
    have any: "restore_cdata (zip toks ms) (weave qs (map placeholder js))
        = weave qs (map (\<lambda>j. ms ! j) js)"
      if "length qs = Suc (length js)" "\<forall>j \<in> set js. j < length ms" "\<forall>q \<in> set qs. core_free q"
      for qs js
      unfolding toks_def by (rule restore_any_order [OF that(3) that(1) that(2) sc])
    from c0 c1 any show ?thesis by blast
  qed
  have c2: "(\<forall>i < length ms. count_occ (placeholder i) doc = 0
                  \<and> count_occ (placeholder i) (weave gs toks) = 1)
               \<longrightarrow> restore_cdata (zip toks ms) (weave gs toks) = doc"
    by (rule impI) (rule r1)
  have c3: "core_free doc \<longrightarrow>
      (\<forall>i < length ms. count_occ (placeholder i) doc = 0
                  \<and> count_occ (placeholder i) (weave gs toks) = 1)
      \<and> (\<forall>qs js. length qs = Suc (length js) \<and> (\<forall>j \<in> set js. j < length ms)
                      \<and> (\<forall>q \<in> set qs. core_free q)
                    \<longrightarrow> restore_cdata (zip toks ms) (weave qs (map placeholder js))
                        = weave qs (map (\<lambda>j. ms ! j) js))"
    by (rule impI) (rule r2)
  show ?thesis
    unfolding Let_def ms_def [symmetric] gs_def [symmetric] toks_def [symmetric]
    by (intro conjI e c2 c3)
qed

text \<open>
  The document \<^verbatim>\<open><a><![CDATA[x]]>y<![CDATA[z]]></a>\<close>: two tokens, and the restoration
  gives the document back; in a text that holds the tokens in the other order the
  section of index 1 comes first.
\<close>

theorem placeholder_tokens_witness:
  "extract_cdata ''<a><![CDATA[x]]>y<![CDATA[z]]></a>''
     = (''<a>__CDATA_PLACEHOLDER_0__y__CDATA_PLACEHOLDER_1__</a>'',
        [(''__CDATA_PLACEHOLDER_0__'', ''<![CDATA[x]]>''),
         (''__CDATA_PLACEHOLDER_1__'', ''<![CDATA[z]]>'')])
   \<and> count_occ ''__CDATA_PLACEHOLDER_1__'' ''<a><![CDATA[x]]>y<![CDATA[z]]></a>'' = 0
   \<and> count_occ ''__CDATA_PLACEHOLDER_1__'' ''<a>__CDATA_PLACEHOLDER_0__y__CDATA_PLACEHOLDER_1__</a>'' = 1
   \<and> restore_cdata [(''__CDATA_PLACEHOLDER_0__'', ''<![CDATA[x]]>''),
                     (''__CDATA_PLACEHOLDER_1__'', ''<![CDATA[z]]>'')]
         ''<a>__CDATA_PLACEHOLDER_0__y__CDATA_PLACEHOLDER_1__</a>''
       = ''<a><![CDATA[x]]>y<![CDATA[z]]></a>''
   \<and> restore_cdata [(''__CDATA_PLACEHOLDER_0__'', ''<![CDATA[x]]>''),
                     (''__CDATA_PLACEHOLDER_1__'', ''<![CDATA[z]]>'')]
         ''__CDATA_PLACEHOLDER_1__-__CDATA_PLACEHOLDER_0__''
       = ''<![CDATA[z]]>-<![CDATA[x]]>''"
proof -
  let ?doc = "''<a><![CDATA[x]]>y<![CDATA[z]]></a>''"
  have f: "cdata_finditer ?doc = [''<![CDATA[x]]>'', ''<![CDATA[z]]>'']"
    by (simp add: cdata_finditer.simps cdata_match_def cdata_open_def cdata_close_def)
  have g: "cdata_gaps ?doc = [''<a>'', ''y'', ''</a>'']"
    by (simp add: cdata_gaps.simps cdata_match_def cdata_open_def cdata_close_def)
  have h1: "core_free ?doc"
    by (simp add: core_free_def token_core_def find_sub_None [symmetric])
  have h2: "sections_apart (cdata_finditer ?doc)" by (simp add: f suffix_to_prefix)
  have t: "map placeholder [0..<length [''<![CDATA[x]]>'', ''<![CDATA[z]]>'']]
      = [''__CDATA_PLACEHOLDER_0__'', ''__CDATA_PLACEHOLDER_1__'']"
    by (simp add: placeholder_0 placeholder_1)
  have w: "weave [''<a>'', ''y'', ''</a>''] [''__CDATA_PLACEHOLDER_0__'', ''__CDATA_PLACEHOLDER_1__'']
      = ''<a>__CDATA_PLACEHOLDER_0__y__CDATA_PLACEHOLDER_1__</a>''"
    by simp
  have z: "zip [''__CDATA_PLACEHOLDER_0__'', ''__CDATA_PLACEHOLDER_1__'']
             [''<![CDATA[x]]>'', ''<![CDATA[z]]>'']
      = [(''__CDATA_PLACEHOLDER_0__'', ''<![CDATA[x]]>''),
         (''__CDATA_PLACEHOLDER_1__'', ''<![CDATA[z]]>'')]"
    by simp
  note P = placeholder_tokens [OF h2, unfolded Let_def f g t w z]
  note e = P [THEN conjunct1]
  note Q = P [THEN conjunct2, THEN conjunct2, THEN mp, OF h1]
  note c = Q [THEN conjunct1]
  note r = P [THEN conjunct2, THEN conjunct1, THEN mp, OF c]
  have l: "Suc 0 < length [''<![CDATA[x]]>'', ''<![CDATA[z]]>'']" by simp
  note c1 = c [rule_format, OF l, unfolded placeholder_1]
  have q: "length [[], ''-'', []] = Suc (length [Suc 0, 0])
      \<and> (\<forall>j \<in> set [Suc 0, 0]. j < length [''<![CDATA[x]]>'', ''<![CDATA[z]]>''])
      \<and> (\<forall>q \<in> set [[], ''-'', []]. core_free q)"
    by (simp add: core_free_def token_core_def find_sub_None [symmetric])
  from Q [THEN conjunct2, THEN spec, THEN spec, THEN mp, OF q]
  have a: "restore_cdata [(''__CDATA_PLACEHOLDER_0__'', ''<![CDATA[x]]>''),
                     (''__CDATA_PLACEHOLDER_1__'', ''<![CDATA[z]]>'')]
         ''__CDATA_PLACEHOLDER_1__-__CDATA_PLACEHOLDER_0__''
       = ''<![CDATA[z]]>-<![CDATA[x]]>''"
    by (simp add: placeholder_0 placeholder_1)
  show ?thesis
    by (intro conjI e r a c1 [THEN conjunct1] c1 [THEN conjunct2])
qed

text \<open>
  Three documents at which the claim fails. In the first the token of index 0 is there
  before the extraction: it then occurs twice in the working text, and the restoration
  replaces both occurrences. The second has the same section twice: the first pass of
  the loop replaces both, the token of index 0 occurs twice and the token of index 1
  never. The third holds no token, only the text \<^verbatim>\<open>CDATA_PLACEHOLDER_0__\<close> behind its
  second section: with the last two characters of the token of index 1 before it, the
  token of index 0 occurs twice in the working text, and the restoration puts the first
  section in the place of the second.
\<close>

theorem placeholder_collision:
  "count_occ (placeholder 0) ''<a>__CDATA_PLACEHOLDER_0__<![CDATA[x]]></a>'' = 1
   \<and> extract_cdata ''<a>__CDATA_PLACEHOLDER_0__<![CDATA[x]]></a>''
     = (''<a>__CDATA_PLACEHOLDER_0____CDATA_PLACEHOLDER_0__</a>'',
        [(placeholder 0, ''<![CDATA[x]]>'')])
   \<and> count_occ (placeholder 0) ''<a>__CDATA_PLACEHOLDER_0____CDATA_PLACEHOLDER_0__</a>'' = 2
   \<and> restore_cdata [(placeholder 0, ''<![CDATA[x]]>'')]
         ''<a>__CDATA_PLACEHOLDER_0____CDATA_PLACEHOLDER_0__</a>''
     = ''<a><![CDATA[x]]><![CDATA[x]]></a>''
   \<and> extract_cdata ''<a><![CDATA[x]]><![CDATA[x]]></a>''
     = (''<a>__CDATA_PLACEHOLDER_0____CDATA_PLACEHOLDER_0__</a>'',
        [(placeholder 0, ''<![CDATA[x]]>''), (placeholder (Suc 0), ''<![CDATA[x]]>'')])
   \<and> count_occ (placeholder (Suc 0)) ''<a>__CDATA_PLACEHOLDER_0____CDATA_PLACEHOLDER_0__</a>'' = 0
   \<and> count_occ (placeholder 0) ''<a><![CDATA[x]]>x<![CDATA[z]]>CDATA_PLACEHOLDER_0__</a>'' = 0
   \<and> count_occ (placeholder (Suc 0)) ''<a><![CDATA[x]]>x<![CDATA[z]]>CDATA_PLACEHOLDER_0__</a>'' = 0
   \<and> extract_cdata ''<a><![CDATA[x]]>x<![CDATA[z]]>CDATA_PLACEHOLDER_0__</a>''
     = (''<a>__CDATA_PLACEHOLDER_0__x__CDATA_PLACEHOLDER_1__CDATA_PLACEHOLDER_0__</a>'',
        [(placeholder 0, ''<![CDATA[x]]>''), (placeholder (Suc 0), ''<![CDATA[z]]>'')])
   \<and> count_occ (placeholder 0)
        ''<a>__CDATA_PLACEHOLDER_0__x__CDATA_PLACEHOLDER_1__CDATA_PLACEHOLDER_0__</a>'' = 2
   \<and> restore_cdata [(placeholder 0, ''<![CDATA[x]]>''), (placeholder (Suc 0), ''<![CDATA[z]]>'')]
        ''<a>__CDATA_PLACEHOLDER_0__x__CDATA_PLACEHOLDER_1__CDATA_PLACEHOLDER_0__</a>''
     = ''<a><![CDATA[x]]>x__CDATA_PLACEHOLDER_1<![CDATA[x]]></a>''"
proof -
  have c1: "count_occ ''__CDATA_PLACEHOLDER_0__'' ''<a>__CDATA_PLACEHOLDER_0__<![CDATA[x]]></a>'' = 1"
    by simp
  have c2: "extract_cdata ''<a>__CDATA_PLACEHOLDER_0__<![CDATA[x]]></a>''
      = (''<a>__CDATA_PLACEHOLDER_0____CDATA_PLACEHOLDER_0__</a>'',
         [(''__CDATA_PLACEHOLDER_0__'', ''<![CDATA[x]]>'')])"
    by (simp add: extract_cdata_def cdata_finditer.simps cdata_match_def
        cdata_open_def cdata_close_def placeholder_0)
  have c3: "count_occ ''__CDATA_PLACEHOLDER_0__''
      ''<a>__CDATA_PLACEHOLDER_0____CDATA_PLACEHOLDER_0__</a>'' = 2"
    by simp
  have c4: "restore_cdata [(''__CDATA_PLACEHOLDER_0__'', ''<![CDATA[x]]>'')]
         ''<a>__CDATA_PLACEHOLDER_0____CDATA_PLACEHOLDER_0__</a>''
     = ''<a><![CDATA[x]]><![CDATA[x]]></a>''"
    by simp
  have d1: "extract_cdata ''<a><![CDATA[x]]><![CDATA[x]]></a>''
      = (''<a>__CDATA_PLACEHOLDER_0____CDATA_PLACEHOLDER_0__</a>'',
         [(''__CDATA_PLACEHOLDER_0__'', ''<![CDATA[x]]>''),
          (''__CDATA_PLACEHOLDER_1__'', ''<![CDATA[x]]>'')])"
    by (simp add: extract_cdata_def cdata_finditer.simps cdata_match_def
        cdata_open_def cdata_close_def placeholder_0 placeholder_1)
  have d2: "count_occ ''__CDATA_PLACEHOLDER_1__''
      ''<a>__CDATA_PLACEHOLDER_0____CDATA_PLACEHOLDER_0__</a>'' = 0"
    by simp
  have e1: "count_occ ''__CDATA_PLACEHOLDER_0__''
      ''<a><![CDATA[x]]>x<![CDATA[z]]>CDATA_PLACEHOLDER_0__</a>'' = 0"
    by simp
  have e2: "count_occ ''__CDATA_PLACEHOLDER_1__''
      ''<a><![CDATA[x]]>x<![CDATA[z]]>CDATA_PLACEHOLDER_0__</a>'' = 0"
    by simp
  have e3: "extract_cdata ''<a><![CDATA[x]]>x<![CDATA[z]]>CDATA_PLACEHOLDER_0__</a>''
      = (''<a>__CDATA_PLACEHOLDER_0__x__CDATA_PLACEHOLDER_1__CDATA_PLACEHOLDER_0__</a>'',
         [(''__CDATA_PLACEHOLDER_0__'', ''<![CDATA[x]]>''),
          (''__CDATA_PLACEHOLDER_1__'', ''<![CDATA[z]]>'')])"
    by (simp add: extract_cdata_def cdata_finditer.simps cdata_match_def
        cdata_open_def cdata_close_def placeholder_0 placeholder_1)
  have e4: "count_occ ''__CDATA_PLACEHOLDER_0__''
      ''<a>__CDATA_PLACEHOLDER_0__x__CDATA_PLACEHOLDER_1__CDATA_PLACEHOLDER_0__</a>'' = 2"
    by simp
  have e5: "restore_cdata [(''__CDATA_PLACEHOLDER_0__'', ''<![CDATA[x]]>''),
          (''__CDATA_PLACEHOLDER_1__'', ''<![CDATA[z]]>'')]
        ''<a>__CDATA_PLACEHOLDER_0__x__CDATA_PLACEHOLDER_1__CDATA_PLACEHOLDER_0__</a>''
     = ''<a><![CDATA[x]]>x__CDATA_PLACEHOLDER_1<![CDATA[x]]></a>''"
    by simp
  show ?thesis
    unfolding placeholder_0 placeholder_1
    by (intro conjI c1 c2 c3 c4 d1 d2 e1 e2 e3 e4 e5)
qed

end
